theory Spec2Isabelle
  imports Main "HOL-Library.Sublist"
begin

section \<open>Ways a call can end without a result\<close>

text \<open>
  The C++ code guards its assumptions with \<open>assert\<close>, reads arrays through
  \<open>ArrayRef::operator[]\<close>, calls through pointers that may be null and converts with
  \<open>cast\<close>. Where one of them has no defined result (a failed assertion in a build with
  assertions, a read outside an array, a call through a null pointer, a \<open>cast\<close> to another
  type), the model returns the corresponding value on the left of a sum instead of a
  result. None of them is an error of the pass: no diagnostic is emitted and the pass is
  not marked failed.
\<close>

datatype crash = AssertionFailure | IndexOutOfBounds | CastFailure | NullDereference


section \<open>The instance graph (FIRRTLInstanceGraph.cpp)\<close>

text \<open>
  Modules (graph nodes) and instance operations are identified by natural numbers, the
  model of the pointers the C++ code compares. An \<open>InstanceRecord\<close> is one edge of the
  graph: the instance operation, the node whose body contains it (\<open>getParent\<close>) and the
  node it instantiates (\<open>getTarget\<close>). \<open>uses g m\<close> is the use list of node \<open>m\<close>: every
  record whose target is \<open>m\<close>, in iteration order.
\<close>

type_synonym ModuleId = nat
type_synonym InstanceOp = nat

record InstanceRecord =
  getInstance :: InstanceOp
  getParent :: ModuleId
  getTarget :: ModuleId

record InstanceGraph =
  topLevelNode :: ModuleId
  uses :: "ModuleId \<Rightarrow> InstanceRecord list"

definition noUses :: "InstanceGraph \<Rightarrow> ModuleId \<Rightarrow> bool" where
  "noUses g node = (uses g node = [])"

subsection \<open>Paths in the bump allocator\<close>

text \<open>
  An \<open>InstancePath\<close> is an \<open>ArrayRef<InstanceOp>\<close>: a pointer into the bump allocator,
  or the null array of length zero (the function-local static \<open>empty\<close>). The allocator is
  the list of the arrays allocated so far; \<open>Allocate\<close> appends a block and returns its
  index, so a block that is not written again after its allocation keeps its contents.
  \<open>pathValid\<close> says that a path points to an allocated array; the code never holds one that
  does not, and \<open>pathElems\<close> reads such a path as empty.
\<close>

datatype InstancePath = NullPath | ArenaPath nat

type_synonym Allocator = "InstanceOp list list"

fun pathElems :: "Allocator \<Rightarrow> InstancePath \<Rightarrow> InstanceOp list" where
  "pathElems al NullPath = []"
| "pathElems al (ArenaPath a) = (if a < length al then al ! a else [])"

fun pathValid :: "Allocator \<Rightarrow> InstancePath \<Rightarrow> bool" where
  "pathValid al NullPath = True"
| "pathValid al (ArenaPath a) = (a < length al)"

record InstancePathCache =
  instanceGraph :: InstanceGraph
  absolutePathsCache :: "(ModuleId \<times> InstancePath list) list"
  allocator :: Allocator

definition newInstancePathCache :: "InstanceGraph \<Rightarrow> InstancePathCache" where
  "newInstancePathCache g =
     \<lparr>instanceGraph = g, absolutePathsCache = [], allocator = []\<rparr>"

text \<open>\<open>appendInstance\<close>: allocate \<open>n = size + 1\<close> cells, copy the path, store the instance.\<close>

definition appendInstance ::
  "InstancePathCache \<Rightarrow> InstancePath \<Rightarrow> InstanceOp \<Rightarrow> InstancePath \<times> InstancePathCache" where
  "appendInstance C path inst =
     (let al = allocator C;
          newPath = pathElems al path @ [inst]
      in (ArenaPath (length al), C\<lparr>allocator := al @ [newPath]\<rparr>))"

text \<open>The inner loop of \<open>getAbsolutePaths\<close>: push the extension of every parent path.\<close>

fun appendAll ::
  "InstancePathCache \<Rightarrow> InstancePath list \<Rightarrow> InstanceOp \<Rightarrow> InstancePath list
     \<Rightarrow> InstancePath list \<times> InstancePathCache" where
  "appendAll C [] inst extendedPaths = (extendedPaths, C)"
| "appendAll C (path # rest) inst extendedPaths =
     (case appendInstance C path inst of
        (p, C') \<Rightarrow> appendAll C' rest inst (extendedPaths @ [p]))"

text \<open>\<open>DenseMap::insert\<close> keeps an existing entry.\<close>

definition cacheInsert ::
  "InstancePathCache \<Rightarrow> ModuleId \<Rightarrow> InstancePath list \<Rightarrow> InstancePathCache" where
  "cacheInsert C op pathList =
     (case map_of (absolutePathsCache C) op of
        Some _ \<Rightarrow> C
      | None \<Rightarrow> C\<lparr>absolutePathsCache := absolutePathsCache C @ [(op, pathList)]\<rparr>)"

text \<open>
  \<open>getAbsolutePaths\<close> recurses through the parents of every use. The first argument bounds
  the recursion depth; \<open>None\<close> is the recursion that does not return.
\<close>

fun getAbsolutePaths ::
  "nat \<Rightarrow> InstancePathCache \<Rightarrow> ModuleId \<Rightarrow> (InstancePath list \<times> InstancePathCache) option"
and extendPaths ::
  "nat \<Rightarrow> InstancePathCache \<Rightarrow> InstanceRecord list \<Rightarrow> InstancePath list
     \<Rightarrow> (InstancePath list \<times> InstancePathCache) option"
where
  "getAbsolutePaths 0 C op = None"
| "getAbsolutePaths (Suc n) C op =
     (if op = topLevelNode (instanceGraph C) then Some ([NullPath], C)
      else case map_of (absolutePathsCache C) op of
        Some cached \<Rightarrow> Some (cached, C)
      | None \<Rightarrow>
         (case extendPaths n C (uses (instanceGraph C) op) [] of
            None \<Rightarrow> None
          | Some (extendedPaths, C') \<Rightarrow>
              Some (extendedPaths, cacheInsert C' op extendedPaths)))"
| "extendPaths n C [] extendedPaths = Some (extendedPaths, C)"
| "extendPaths n C (inst # rest) extendedPaths =
     (case getAbsolutePaths n C (getParent inst) of
        None \<Rightarrow> None
      | Some (instPaths, C') \<Rightarrow>
         (case appendAll C' instPaths (getInstance inst) extendedPaths of
            (ext, C'') \<Rightarrow> extendPaths n C'' rest ext))"

subsection \<open>Reference notions for path enumeration\<close>

fun pathsAt :: "nat \<Rightarrow> InstanceGraph \<Rightarrow> ModuleId \<Rightarrow> InstanceOp list list" where
  "pathsAt 0 g m = (if m = topLevelNode g then [[]] else [])"
| "pathsAt (Suc n) g m =
     (if m = topLevelNode g then [[]]
      else concat (map (\<lambda>u. map (\<lambda>p. p @ [getInstance u]) (pathsAt n g (getParent u))) (uses g m)))"

definition acyclicBy :: "InstanceGraph \<Rightarrow> (ModuleId \<Rightarrow> nat) \<Rightarrow> bool" where
  "acyclicBy g rank =
     (\<forall>m. m \<noteq> topLevelNode g \<longrightarrow> (\<forall>u \<in> set (uses g m). rank (getParent u) < rank m))"

definition cacheConsistent ::
  "(ModuleId \<Rightarrow> InstanceOp list list) \<Rightarrow> InstancePathCache \<Rightarrow> bool" where
  "cacheConsistent P C =
     (\<forall>(m, ps) \<in> set (absolutePathsCache C).
        (\<forall>p \<in> set ps. pathValid (allocator C) p) \<and> map (pathElems (allocator C)) ps = P m)"

definition pathsResult ::
  "(ModuleId \<Rightarrow> InstanceOp list list) \<Rightarrow> InstancePathCache \<Rightarrow> InstancePathCache
     \<Rightarrow> InstancePath list \<Rightarrow> InstanceOp list list \<Rightarrow> bool" where
  "pathsResult P C C' ps want =
     (instanceGraph C' = instanceGraph C \<and>
      (\<exists>new. allocator C' = allocator C @ new) \<and>
      cacheConsistent P C' \<and>
      (\<forall>p \<in> set ps. pathValid (allocator C') p) \<and>
      map (pathElems (allocator C')) ps = want)"

text \<open>
  A small design used to run the definitions: the top module 0 instantiates module 1
  (instance 10), module 3 twice (instances 30 and 31) and module 5 (instance 50); module 1
  instantiates module 2 (instance 20).
\<close>

definition chainGraph :: InstanceGraph where
  "chainGraph =
     \<lparr>topLevelNode = 0,
      uses = (\<lambda>m.
        if m = 1 then [\<lparr>getInstance = 10, getParent = 0, getTarget = 1\<rparr>]
        else if m = 2 then [\<lparr>getInstance = 20, getParent = 1, getTarget = 2\<rparr>]
        else if m = 3 then [\<lparr>getInstance = 30, getParent = 0, getTarget = 3\<rparr>,
                            \<lparr>getInstance = 31, getParent = 0, getTarget = 3\<rparr>]
        else if m = 5 then [\<lparr>getInstance = 50, getParent = 0, getTarget = 5\<rparr>]
        else [])\<rparr>"

subsection \<open>Replacing an instance\<close>

text \<open>
  Modelled from the spec: \<open>InstanceGraph::replaceInstance\<close> is declared in the instance
  graph base class, whose source is not part of this repository snapshot. By its contract
  (section 4.1) it swaps the instance operation of a site and preserves every edge: the
  record of \<open>oldOp\<close> keeps its parent and target and now holds \<open>newOp\<close>.
\<close>

definition graphReplaceInstance ::
  "InstanceGraph \<Rightarrow> InstanceOp \<Rightarrow> InstanceOp \<Rightarrow> InstanceGraph" where
  "graphReplaceInstance g oldOp newOp =
     g\<lparr>uses := (\<lambda>m. map (\<lambda>u. if getInstance u = oldOp then u\<lparr>getInstance := newOp\<rparr> else u)
                      (uses g m))\<rparr>"

text \<open>The lambda \<open>instanceExists\<close>: some path of the entry contains \<open>oldOp\<close>.\<close>

definition instanceExists :: "Allocator \<Rightarrow> InstanceOp \<Rightarrow> InstancePath list \<Rightarrow> bool" where
  "instanceExists al oldOp paths = list_ex (\<lambda>p. oldOp \<in> set (pathElems al p)) paths"

text \<open>\<open>llvm::find\<close>: the index of the first occurrence, the length when there is none.\<close>

fun findOp :: "InstanceOp list \<Rightarrow> InstanceOp \<Rightarrow> nat" where
  "findOp [] x = 0"
| "findOp (y # ys) x = (if y = x then 0 else Suc (findOp ys x))"

text \<open>
  The inner loop over the paths of one cache entry. A path without \<open>oldOp\<close> is pushed as
  it is; otherwise a new array of the same size is allocated, the path copied into it and
  the cell at the found index overwritten.
\<close>

fun updatePaths ::
  "Allocator \<Rightarrow> InstancePath list \<Rightarrow> InstanceOp \<Rightarrow> InstanceOp \<Rightarrow> InstancePath list
     \<Rightarrow> InstancePath list \<times> Allocator" where
  "updatePaths al [] oldOp newOp updatedPaths = (updatedPaths, al)"
| "updatePaths al (path # rest) oldOp newOp updatedPaths =
     (let elems = pathElems al path; i = findOp elems oldOp in
      if i = length elems then updatePaths al rest oldOp newOp (updatedPaths @ [path])
      else updatePaths (al @ [elems[i := newOp]]) rest oldOp newOp
             (updatedPaths @ [ArenaPath (length al)]))"

text \<open>The outer loop over the cache entries, in the iteration order of the map.\<close>

fun replaceInEntries ::
  "Allocator \<Rightarrow> (ModuleId \<times> InstancePath list) list \<Rightarrow> InstanceOp \<Rightarrow> InstanceOp
     \<Rightarrow> (ModuleId \<times> InstancePath list) list \<times> Allocator" where
  "replaceInEntries al [] oldOp newOp = ([], al)"
| "replaceInEntries al ((m, paths) # rest) oldOp newOp =
     (if \<not> instanceExists al oldOp paths then
        (case replaceInEntries al rest oldOp newOp of
           (rest', al') \<Rightarrow> ((m, paths) # rest', al'))
      else
        (case updatePaths al paths oldOp newOp [] of
           (updatedPaths, al1) \<Rightarrow>
             (case replaceInEntries al1 rest oldOp newOp of
                (rest', al2) \<Rightarrow> ((m, updatedPaths) # rest', al2))))"

definition replaceInstance ::
  "InstancePathCache \<Rightarrow> InstanceOp \<Rightarrow> InstanceOp \<Rightarrow> InstancePathCache" where
  "replaceInstance C oldOp newOp =
     (case replaceInEntries (allocator C) (absolutePathsCache C) oldOp newOp of
        (entries, al) \<Rightarrow>
          \<lparr>instanceGraph = graphReplaceInstance (instanceGraph C) oldOp newOp,
           absolutePathsCache = entries,
           allocator = al\<rparr>)"

text \<open>
  What a cache entry looks like after a replacement, relative to the allocator \<open>al\<close>
  before it and \<open>al'\<close> after it: a path without \<open>oldOp\<close> is the same array; a path with
  \<open>oldOp\<close> is an array allocated after \<open>al\<close> that holds the old contents with \<open>newOp\<close> at
  the position of \<open>oldOp\<close>.
\<close>

definition pathReplaced ::
  "Allocator \<Rightarrow> Allocator \<Rightarrow> InstanceOp \<Rightarrow> InstanceOp \<Rightarrow> InstancePath \<Rightarrow> InstancePath \<Rightarrow> bool" where
  "pathReplaced al al' oldOp newOp p p' =
     (let elems = pathElems al p in
      if oldOp \<in> set elems then
        (case p' of NullPath \<Rightarrow> False
         | ArenaPath a \<Rightarrow> length al \<le> a \<and> a < length al') \<and>
        length (pathElems al' p') = length elems \<and>
        findOp elems oldOp < length elems \<and>
        elems ! findOp elems oldOp = oldOp \<and>
        pathElems al' p' = elems[findOp elems oldOp := newOp]
      else p' = p \<and> pathElems al' p' = elems)"

definition entryReplaced ::
  "Allocator \<Rightarrow> Allocator \<Rightarrow> InstanceOp \<Rightarrow> InstanceOp
     \<Rightarrow> ModuleId \<times> InstancePath list \<Rightarrow> ModuleId \<times> InstancePath list \<Rightarrow> bool" where
  "entryReplaced al al' oldOp newOp e e' =
     (fst e' = fst e \<and>
      list_all2 (pathReplaced al al' oldOp newOp) (snd e) (snd e') \<and>
      (\<not> instanceExists al oldOp (snd e) \<longrightarrow> e' = e))"

definition cacheValid :: "InstancePathCache \<Rightarrow> bool" where
  "cacheValid C =
     list_all (\<lambda>e. list_all (pathValid (allocator C)) (snd e)) (absolutePathsCache C)"

text \<open>The cache of the small design after every module was queried once.\<close>

definition chainCache :: InstancePathCache where
  "chainCache =
     \<lparr>instanceGraph = chainGraph,
      absolutePathsCache =
        [(1, [ArenaPath 0]), (2, [ArenaPath 1]), (3, [ArenaPath 2, ArenaPath 3])],
      allocator = [[10], [10, 20], [30], [31]]\<rparr>"

subsection \<open>The dominance check \<open>allUnder\<close>\<close>

text \<open>\<open>if (seen.insert(mod).second) worklist.push_back(mod);\<close>\<close>

fun markSeen :: "ModuleId set \<times> ModuleId list \<Rightarrow> ModuleId \<Rightarrow> ModuleId set \<times> ModuleId list" where
  "markSeen (seen, worklist) modl =
     (if modl \<in> seen then (seen, worklist) else (insert modl seen, worklist @ [modl]))"

text \<open>
  The \<open>while\<close> loop. The worklist is a vector used as a stack: \<open>back\<close> is the last element.
  \<open>None\<close> is the loop that does not end.
\<close>

partial_function (option) allUnderLoop ::
  "InstanceGraph \<Rightarrow> ModuleId \<Rightarrow> ModuleId set \<Rightarrow> ModuleId list \<Rightarrow> (crash + bool) option" where
  "allUnderLoop g topN seen worklist =
     (if worklist = [] then Some (Inr True)
      else
        let node = last worklist; popped = butlast worklist in
        if node = topN then Some (Inl AssertionFailure)
        else if noUses g node then Some (Inr False)
        else
          (case foldl markSeen (seen, popped) (map getParent (uses g node)) of
             (seen', worklist') \<Rightarrow> allUnderLoop g topN seen' worklist'))"

definition allUnder ::
  "InstanceGraph \<Rightarrow> InstanceRecord list \<Rightarrow> ModuleId \<Rightarrow> (crash + bool) option" where
  "allUnder g nodes topN =
     (case foldl markSeen ({topN}, []) (map getParent nodes) of
        (seen, worklist) \<Rightarrow> allUnderLoop g topN seen worklist)"

text \<open>
  An upward path: a non-empty list of modules in which each next module contains an
  instance of the one before it.
\<close>

fun upwardPath :: "InstanceGraph \<Rightarrow> ModuleId list \<Rightarrow> bool" where
  "upwardPath g [] = False"
| "upwardPath g [m] = True"
| "upwardPath g (m # m' # ms) =
     (m' \<in> getParent ` set (uses g m) \<and> upwardPath g (m' # ms))"

text \<open>The modules the traversal can reach from a set of starting modules without entering \<open>top\<close>.\<close>

inductive_set climbs :: "InstanceGraph \<Rightarrow> ModuleId \<Rightarrow> ModuleId set \<Rightarrow> ModuleId set"
  for g :: InstanceGraph and topN :: ModuleId and S :: "ModuleId set" where
  start: "m \<in> S \<Longrightarrow> m \<noteq> topN \<Longrightarrow> m \<in> climbs g topN S"
| step: "m \<in> climbs g topN S \<Longrightarrow> u \<in> set (uses g m) \<Longrightarrow> getParent u \<noteq> topN
         \<Longrightarrow> getParent u \<in> climbs g topN S"

text \<open>The invariant of the worklist loop, for the starting modules \<open>S\<close>.\<close>

definition loopInv ::
  "InstanceGraph \<Rightarrow> ModuleId \<Rightarrow> ModuleId set \<Rightarrow> ModuleId set \<Rightarrow> ModuleId list \<Rightarrow> bool" where
  "loopInv g topN S seen wl =
     (topN \<in> seen \<and> S \<subseteq> seen \<and> set wl \<subseteq> seen - {topN} \<and>
      seen - {topN} \<subseteq> climbs g topN S \<and>
      (\<forall>m \<in> seen - {topN} - set wl. \<not> noUses g m \<and> getParent ` set (uses g m) \<subseteq> seen))"

section \<open>Wiring problems (LowerAnnotations.cpp, \<open>runOnOperation\<close>)\<close>

text \<open>
  The part of the IR the resolver reads. A value knows the module of its defining
  operation (\<open>None\<close> for a block argument, whose \<open>getDefiningOp\<close> is null) and its type.
  A FIRRTL type is a base type or a reference to a base type (\<open>RefType::get\<close> takes a
  base type). The circuit tells, for an instance operation, the module it references,
  and which modules are \<open>FModuleOp\<close>s, the only ones the cast to \<open>FModuleOp\<close> accepts.
\<close>

datatype FIRRTLType = BaseType nat | RefType nat

datatype Direction = In | Out

record PortInfo =
  portName :: string
  portType :: FIRRTLType
  portDirection :: Direction

record Value =
  valueId :: nat
  definingModule :: "ModuleId option"
  valueType :: FIRRTLType

text \<open>
  Modelled from the spec: the \<open>WiringProblem\<close> struct is declared in a header that is not
  part of this repository snapshot; the fields are those the pass reads, as in section 3 of
  the spec.
\<close>

record WiringProblem =
  source :: Value
  sink :: Value
  isRefType :: bool
  newNameHint :: string

record Circuit =
  referencedModule :: "InstanceOp \<Rightarrow> ModuleId"
  isFModuleOp :: "ModuleId \<Rightarrow> bool"

record ModuleModifications =
  portsToAdd :: "(PortInfo \<times> nat) list"
  connectionMap :: "nat \<rightharpoonup> Value"
  uturns :: "(Value \<times> nat) list"

definition noModifications :: ModuleModifications where
  "noModifications = \<lparr>portsToAdd = [], connectionMap = Map.empty, uturns = []\<rparr>"

text \<open>\<open>DenseMap::operator[]\<close> reads the entry of a key, a default-constructed one when absent.\<close>

definition modsAt :: "(ModuleId \<rightharpoonup> ModuleModifications) \<Rightarrow> ModuleId \<Rightarrow> ModuleModifications" where
  "modsAt mm m = (case mm m of None \<Rightarrow> noModifications | Some x \<Rightarrow> x)"

definition castFModuleOp :: "Circuit \<Rightarrow> ModuleId \<Rightarrow> crash + ModuleId" where
  "castFModuleOp c m = (if isFModuleOp c m then Inr m else Inl CastFailure)"

text \<open>
  The state the loop over the wiring problems works on. The name space of a module is
  kept abstract: \<open>Namespace::newName\<close> is not part of this repository snapshot and is a
  parameter \<open>newName\<close> of the functions below, which returns the fresh name and the name
  space that contains it.
\<close>

record 'ns WiringState =
  pathCache :: InstancePathCache
  moduleModifications :: "ModuleId \<rightharpoonup> ModuleModifications"
  namespaces :: "ModuleId \<Rightarrow> 'ns"

subsection \<open>The lowest common ancestor\<close>

text \<open>
  The loop \<open>while (!sources.empty() || sinks.empty())\<close> with its body. \<open>sources[0]\<close> and
  \<open>sinks[0]\<close> are checked reads of an \<open>ArrayRef\<close>; \<open>sources[0]\<close> is read first.
\<close>

fun lcaLoop ::
  "Circuit \<Rightarrow> ModuleId \<Rightarrow> InstanceOp list \<Rightarrow> InstanceOp list
     \<Rightarrow> crash + (ModuleId \<times> InstanceOp list \<times> InstanceOp list)" where
  "lcaLoop c lca sources sinks =
     (if sources \<noteq> [] \<or> sinks = [] then
        (case sources of
           [] \<Rightarrow> Inl IndexOutOfBounds
         | s # sources' \<Rightarrow>
            (case sinks of
               [] \<Rightarrow> Inl IndexOutOfBounds
             | k # sinks' \<Rightarrow>
                 if s \<noteq> k then Inr (lca, sources, sinks)
                 else (case castFModuleOp c (referencedModule c s) of
                         Inl e \<Rightarrow> Inl e
                       | Inr newLCA \<Rightarrow> lcaLoop c newLCA sources' sinks')))
      else Inr (lca, sources, sinks))"

definition computeLCA ::
  "Circuit \<Rightarrow> InstanceGraph \<Rightarrow> InstanceOp list \<Rightarrow> InstanceOp list
     \<Rightarrow> crash + (ModuleId \<times> InstanceOp list \<times> InstanceOp list)" where
  "computeLCA c g sources sinks =
     (case castFModuleOp c (topLevelNode g) of
        Inl e \<Rightarrow> Inl e
      | Inr lca \<Rightarrow> lcaLoop c lca sources sinks)"

subsection \<open>Port planning\<close>

text \<open>
  The type of the new ports: \<open>RefType::get(cast<FIRRTLBaseType>(source type))\<close> for a
  reference-typed problem, the source type otherwise.
\<close>

definition portTypeFor :: "WiringProblem \<Rightarrow> crash + FIRRTLType" where
  "portTypeFor problem =
     (if isRefType problem then
        (case valueType (source problem) of
           BaseType b \<Rightarrow> Inr (RefType b)
         | RefType _ \<Rightarrow> Inl CastFailure)
      else Inr (valueType (source problem)))"

text \<open>One of the two \<open>for\<close> loops that record the ports, for the direction \<open>dir\<close>.\<close>

fun recordPorts ::
  "('ns \<Rightarrow> string \<Rightarrow> string \<times> 'ns) \<Rightarrow> Circuit \<Rightarrow> WiringProblem \<Rightarrow> nat \<Rightarrow> Direction
     \<Rightarrow> InstanceOp list \<Rightarrow> 'ns WiringState \<Rightarrow> crash + 'ns WiringState" where
  "recordPorts newName c problem index dir [] st = Inr st"
| "recordPorts newName c problem index dir (inst # rest) st =
     (case castFModuleOp c (referencedModule c inst) of
        Inl e \<Rightarrow> Inl e
      | Inr modl \<Rightarrow>
         (case portTypeFor problem of
            Inl e \<Rightarrow> Inl e
          | Inr tpe \<Rightarrow>
             (case newName (namespaces st modl) (newNameHint problem) of
                (nm, ns') \<Rightarrow>
                  let mods = modsAt (moduleModifications st) modl;
                      port = \<lparr>portName = nm, portType = tpe, portDirection = dir\<rparr>;
                      mods' = mods\<lparr>portsToAdd := portsToAdd mods @ [(port, index)]\<rparr>
                  in recordPorts newName c problem index dir rest
                       (st\<lparr>moduleModifications := (moduleModifications st)(modl \<mapsto> mods'),
                           namespaces := (namespaces st)(modl := ns')\<rparr>))))"

definition planPorts ::
  "('ns \<Rightarrow> string \<Rightarrow> string \<times> 'ns) \<Rightarrow> Circuit \<Rightarrow> WiringProblem \<Rightarrow> nat
     \<Rightarrow> InstanceOp list \<Rightarrow> InstanceOp list \<Rightarrow> 'ns WiringState \<Rightarrow> crash + 'ns WiringState" where
  "planPorts newName c problem index sources sinks st =
     (case recordPorts newName c problem index Out sources st of
        Inl e \<Rightarrow> Inl e
      | Inr st' \<Rightarrow> recordPorts newName c problem index In sinks st')"

subsection \<open>The body of the loop over the wiring problems\<close>

definition setConnection ::
  "(ModuleId \<rightharpoonup> ModuleModifications) \<Rightarrow> ModuleId \<Rightarrow> nat \<Rightarrow> Value
     \<Rightarrow> (ModuleId \<rightharpoonup> ModuleModifications)" where
  "setConnection mm m index v =
     (let mods = modsAt mm m in mm(m \<mapsto> mods\<lparr>connectionMap := (connectionMap mods)(index \<mapsto> v)\<rparr>))"

text \<open>
  One wiring problem: lines 546 to 626. The first argument says whether the program was
  built with assertions (\<open>NDEBUG\<close> not defined); the second bounds the recursion of
  \<open>getAbsolutePaths\<close>, and \<open>None\<close> is the step that does not return.

  The two \<open>assert\<close>s on \<open>sourcePaths.size() == 1\<close> and \<open>sinkPaths.size() == 1\<close> are the
  only check of the number of paths: nothing emits an error and nothing marks the pass
  failed in the resolution of the wiring problems. Built with assertions the program
  stops at the first of them that fails. Built without, both are compiled out, and the
  step goes on to \<open>sourcePaths[0]\<close> and \<open>sinkPaths[0]\<close>: the first path when there are
  several, a read outside the array when there is none.
\<close>

definition wireProblem ::
  "bool \<Rightarrow> nat \<Rightarrow> ('ns \<Rightarrow> string \<Rightarrow> string \<times> 'ns) \<Rightarrow> Circuit \<Rightarrow> 'ns WiringState
     \<Rightarrow> nat \<Rightarrow> WiringProblem \<Rightarrow> (crash + 'ns WiringState) option" where
  "wireProblem assertions fuel newName c st index problem =
     (case definingModule (source problem) of
        None \<Rightarrow> Some (Inl NullDereference)
      | Some sourceModule \<Rightarrow>
     (case definingModule (sink problem) of
        None \<Rightarrow> Some (Inl NullDereference)
      | Some sinkModule \<Rightarrow>
     (let mm1 = setConnection (moduleModifications st) sourceModule index (source problem);
          mm2 = setConnection mm1 sinkModule index (sink problem)
      in
      case getAbsolutePaths fuel (pathCache st) sourceModule of
        None \<Rightarrow> None
      | Some (sourcePaths, C1) \<Rightarrow>
          if assertions \<and> length sourcePaths \<noteq> 1 then Some (Inl AssertionFailure)
          else
     (case getAbsolutePaths fuel C1 sinkModule of
        None \<Rightarrow> None
      | Some (sinkPaths, C2) \<Rightarrow>
          if assertions \<and> length sinkPaths \<noteq> 1 then Some (Inl AssertionFailure)
          else if sourcePaths = [] \<or> sinkPaths = [] then Some (Inl IndexOutOfBounds)
          else
     (case computeLCA c (instanceGraph C2)
             (pathElems (allocator C2) (sourcePaths ! 0))
             (pathElems (allocator C2) (sinkPaths ! 0)) of
        Inl e \<Rightarrow> Some (Inl e)
      | Inr (lca, sources, sinks) \<Rightarrow>
          Some (planPorts newName c problem index sources sinks
                  (st\<lparr>pathCache := C2, moduleModifications := mm2\<rparr>)))))))"

text \<open>
  The circuit of the small design: instance 10 references module 1, instance 20 module 2,
  instance 50 module 5, instances 30 and 31 module 3; every module is an \<open>FModuleOp\<close>.
  Its name spaces hold the names in use, and a hint that is in use gets an underscore
  appended.
\<close>

definition chainCircuit :: Circuit where
  "chainCircuit =
     \<lparr>referencedModule = (\<lambda>i. if i = 10 then 1 else if i = 20 then 2 else if i = 50 then 5 else 3),
      isFModuleOp = (\<lambda>m. True)\<rparr>"

fun chainNewName :: "string list \<Rightarrow> string \<Rightarrow> string \<times> string list" where
  "chainNewName ns hint =
     (if hint \<in> set ns then (hint @ ''_'', (hint @ ''_'') # ns) else (hint, hint # ns))"

definition chainState :: "string list WiringState" where
  "chainState =
     \<lparr>pathCache = newInstancePathCache chainGraph,
      moduleModifications = Map.empty,
      namespaces = (\<lambda>m. [])\<rparr>"

definition tapProblem :: "ModuleId \<Rightarrow> ModuleId \<Rightarrow> WiringProblem" where
  "tapProblem src snk =
     \<lparr>source = \<lparr>valueId = 100, definingModule = Some src, valueType = BaseType 8\<rparr>,
      sink = \<lparr>valueId = 200, definingModule = Some snk, valueType = BaseType 8\<rparr>,
      isRefType = True,
      newNameHint = ''tap''\<rparr>"

text \<open>The plan of module \<open>m\<close> with the port of a problem appended.\<close>

definition withPort ::
  "('ns \<Rightarrow> string \<Rightarrow> string \<times> 'ns) \<Rightarrow> WiringProblem \<Rightarrow> nat \<Rightarrow> FIRRTLType \<Rightarrow> Direction
     \<Rightarrow> 'ns WiringState \<Rightarrow> ModuleId \<Rightarrow> ModuleModifications" where
  "withPort newName problem index tpe dir st m =
     (modsAt (moduleModifications st) m)
       \<lparr>portsToAdd := portsToAdd (modsAt (moduleModifications st) m) @
          [(\<lparr>portName = fst (newName (namespaces st m) (newNameHint problem)),
             portType = tpe, portDirection = dir\<rparr>, index)]\<rparr>"

text \<open>
  The records of the graph agree with the circuit: a use of module \<open>m\<close> targets \<open>m\<close>,
  and its instance operation references \<open>m\<close>.
\<close>

definition recordsWellFormed :: "Circuit \<Rightarrow> InstanceGraph \<Rightarrow> bool" where
  "recordsWellFormed c g =
     (\<forall>m. \<forall>u \<in> set (uses g m). getTarget u = m \<and> referencedModule c (getInstance u) = m)"

text \<open>
  The absolute paths of a module on a graph that is acyclic by \<open>rank\<close>: the recursive
  definition, unfolded as deep as the rank of the module requires.
\<close>

definition absPaths :: "InstanceGraph \<Rightarrow> (ModuleId \<Rightarrow> nat) \<Rightarrow> ModuleId \<Rightarrow> InstanceOp list list" where
  "absPaths g rank m = pathsAt (Suc (rank m)) g m"

section \<open>Annotation dispatch (LowerAnnotations.cpp)\<close>

subsection \<open>Annotations, targets and the state of the pass\<close>

text \<open>
  An annotation is a \<open>DictionaryAttr\<close>: named attributes, here in the order of the vector
  they were built from (\<open>DictionaryAttr::get\<close> sorts them by name; nothing below reads the
  order). Operations of the IR are identified by numbers.
\<close>

datatype Attribute =
  StringAttr string | IntegerAttr nat | FlatSymbolRefAttr string | OtherAttr nat

type_synonym DictionaryAttr = "(string \<times> Attribute) list"

type_synonym OpId = nat

datatype AnnoTarget = OpAnnoTarget OpId | PortAnnoTarget OpId nat

fun getOp :: "AnnoTarget \<Rightarrow> OpId" where
  "getOp (OpAnnoTarget op) = op"
| "getOp (PortAnnoTarget op portNo) = op"

record AnnoPathValue =
  instances :: "InstanceOp list"
  ref :: AnnoTarget
  fieldIdx :: nat

definition isLocal :: "AnnoPathValue \<Rightarrow> bool" where
  "isLocal target = (instances target = [])"

text \<open>The errors the pass emits, each with the annotation or path it prints.\<close>

datatype Diagnostic =
  AnnotationWithoutClass DictionaryAttr
| UnhandledAnnotation DictionaryAttr
| UnableToResolveTarget DictionaryAttr
| UnableToApplyAnnotation DictionaryAttr
| CannotTokenizePath string
| NoTargetField DictionaryAttr
| TargetNotString DictionaryAttr
| CannotBeNonLocal OpId DictionaryAttr

text \<open>
  The \<open>ApplyState\<close> with the part of the IR the appliers of this file write: the
  \<open>annotations\<close> and \<open>portAnnotations\<close> attributes of operations (\<open>None\<close> when the
  attribute is absent), the hierarchical paths created, and the diagnostics emitted so
  far. The statistic \<open>numUnhandled\<close> of the pass is kept with it. The worklist is not part
  of it: an applier reaches the worklist only through \<open>addToWorklistFn\<close>, so an applier
  returns the annotations it pushed.
\<close>

record ApplyState =
  circuit :: OpId
  annotations :: "OpId \<Rightarrow> DictionaryAttr list option"
  portAnnotations :: "OpId \<Rightarrow> DictionaryAttr list list option"
  numPorts :: "OpId \<Rightarrow> nat"
  hierPathOps :: "(string \<times> Attribute list) list"
  instPathToNLAMap :: "(Attribute list \<times> string) list"
  numReusedHierPaths :: nat
  wiringProblems :: "WiringProblem list"
  diagnostics :: "Diagnostic list"
  numUnhandled :: nat

definition emitError :: "Diagnostic \<Rightarrow> ApplyState \<Rightarrow> ApplyState" where
  "emitError d state = state\<lparr>diagnostics := diagnostics state @ [d]\<rparr>"

text \<open>
  A record of the driving table: a resolver and an applier. A resolver returns the target
  or nothing; an applier returns success or failure and the annotations it added to the
  worklist. Both may change the state, and both may stop the program.
\<close>

record AnnoRecord =
  resolver :: "DictionaryAttr \<Rightarrow> ApplyState \<Rightarrow> crash + (AnnoPathValue option \<times> ApplyState)"
  applier :: "AnnoPathValue \<Rightarrow> DictionaryAttr \<Rightarrow> ApplyState
                \<Rightarrow> crash + (bool \<times> ApplyState \<times> DictionaryAttr list)"

text \<open>
  What this file uses and this repository snapshot does not contain: the target parser
  (\<open>canonicalizeTarget\<close>, \<open>tokenizePath\<close>, \<open>resolveEntities\<close>), the reference an
  instance gets in a hierarchical path, the name of the module of a target, the symbol
  table, and the records of the table whose keys are class constants declared in
  \<open>AnnotationDetails.h\<close>. They are parameters of the model.
\<close>

record 'tok Externals =
  canonicalizeTarget :: "string \<Rightarrow> string"
  tokenizePath :: "string \<Rightarrow> 'tok option"
  resolveEntities :: "'tok \<Rightarrow> ApplyState \<Rightarrow> AnnoPathValue option \<times> ApplyState"
  getNLAReference :: "InstanceOp \<Rightarrow> ApplyState \<Rightarrow> Attribute \<times> ApplyState"
  moduleNameAttr :: "AnnoTarget \<Rightarrow> string"
  symTblInsert :: "string \<Rightarrow> ApplyState \<Rightarrow> string"
  otherRecords :: "string \<Rightarrow> AnnoRecord option"

subsection \<open>Attaching an annotation\<close>

definition getAnnotationsFrom :: "ApplyState \<Rightarrow> OpId \<Rightarrow> DictionaryAttr list" where
  "getAnnotationsFrom state op = (case annotations state op of Some annots \<Rightarrow> annots | None \<Rightarrow> [])"

definition addAnnotation ::
  "AnnoTarget \<Rightarrow> nat \<Rightarrow> DictionaryAttr \<Rightarrow> ApplyState \<Rightarrow> crash + ApplyState" where
  "addAnnotation r fieldIndex anno state =
     (let annotation =
            (if fieldIndex \<noteq> 0 then anno @ [(''circt.fieldID'', IntegerAttr fieldIndex)] else anno)
      in case r of
        OpAnnoTarget op \<Rightarrow>
          Inr (state\<lparr>annotations :=
                 (annotations state)(op := Some (getAnnotationsFrom state op @ [annotation]))\<rparr>)
      | PortAnnoTarget op portNo \<Rightarrow>
          (let portAnno =
                 (case portAnnotations state op of
                    None \<Rightarrow> replicate (numPorts state op) []
                  | Some pa \<Rightarrow>
                      if length pa \<noteq> numPorts state op then replicate (numPorts state op) []
                      else pa)
           in if portNo < length portAnno
              then Inr (state\<lparr>portAnnotations :=
                     (portAnnotations state)
                       (op := Some (portAnno[portNo := portAnno ! portNo @ [annotation]]))\<rparr>)
              else Inl IndexOutOfBounds))"

text \<open>\<open>buildNLA\<close>: the references of the instances, then the module of the target.\<close>

fun nlaReferences ::
  "'tok Externals \<Rightarrow> InstanceOp list \<Rightarrow> ApplyState \<Rightarrow> Attribute list \<times> ApplyState" where
  "nlaReferences ext [] state = ([], state)"
| "nlaReferences ext (inst # rest) state =
     (case getNLAReference ext inst state of
        (a, state1) \<Rightarrow>
          (case nlaReferences ext rest state1 of
             (as, state2) \<Rightarrow> (a # as, state2)))"

definition buildNLA :: "'tok Externals \<Rightarrow> AnnoPathValue \<Rightarrow> ApplyState \<Rightarrow> Attribute \<times> ApplyState" where
  "buildNLA ext target state =
     (case nlaReferences ext (instances target) state of
        (insts0, state1) \<Rightarrow>
          (let instAttr = insts0 @ [FlatSymbolRefAttr (moduleNameAttr ext (ref target))] in
           case map_of (instPathToNLAMap state1) instAttr of
             Some nlaSym \<Rightarrow>
               (FlatSymbolRefAttr nlaSym,
                state1\<lparr>numReusedHierPaths := numReusedHierPaths state1 + 1\<rparr>)
           | None \<Rightarrow>
               (let nlaSym = symTblInsert ext ''nla'' state1 in
                (FlatSymbolRefAttr nlaSym,
                 state1\<lparr>hierPathOps := hierPathOps state1 @ [(nlaSym, instAttr)],
                        instPathToNLAMap := instPathToNLAMap state1 @ [(instAttr, nlaSym)]\<rparr>))))"

definition scatterNonLocalPath ::
  "'tok Externals \<Rightarrow> AnnoPathValue \<Rightarrow> ApplyState \<Rightarrow> Attribute \<times> ApplyState" where
  "scatterNonLocalPath ext target state = buildNLA ext target state"

subsection \<open>Standard resolvers\<close>

definition circuitTarget :: "ApplyState \<Rightarrow> AnnoPathValue" where
  "circuitTarget state = \<lparr>instances = [], ref = OpAnnoTarget (circuit state), fieldIdx = 0\<rparr>"

definition noResolve ::
  "DictionaryAttr \<Rightarrow> ApplyState \<Rightarrow> crash + (AnnoPathValue option \<times> ApplyState)" where
  "noResolve anno state = Inr (Some (circuitTarget state), state)"

definition stdResolveImpl ::
  "'tok Externals \<Rightarrow> string \<Rightarrow> ApplyState \<Rightarrow> AnnoPathValue option \<times> ApplyState" where
  "stdResolveImpl ext rawPath state =
     (case tokenizePath ext (canonicalizeTarget ext rawPath) of
        None \<Rightarrow> (None, emitError (CannotTokenizePath rawPath) state)
      | Some tokens \<Rightarrow> resolveEntities ext tokens state)"

definition stdResolve ::
  "'tok Externals \<Rightarrow> DictionaryAttr \<Rightarrow> ApplyState
     \<Rightarrow> crash + (AnnoPathValue option \<times> ApplyState)" where
  "stdResolve ext anno state =
     (case map_of anno ''target'' of
        None \<Rightarrow> Inr (None, emitError (NoTargetField anno) state)
      | Some (StringAttr path) \<Rightarrow> Inr (stdResolveImpl ext path state)
      | Some _ \<Rightarrow> Inr (None, emitError (TargetNotString anno) state))"

text \<open>\<open>tryResolve\<close> casts the target to a string attribute without testing it first.\<close>

definition tryResolve ::
  "'tok Externals \<Rightarrow> DictionaryAttr \<Rightarrow> ApplyState
     \<Rightarrow> crash + (AnnoPathValue option \<times> ApplyState)" where
  "tryResolve ext anno state =
     (case map_of anno ''target'' of
        Some (StringAttr path) \<Rightarrow> Inr (stdResolveImpl ext path state)
      | Some _ \<Rightarrow> Inl CastFailure
      | None \<Rightarrow> Inr (Some (circuitTarget state), state))"

subsection \<open>Standard appliers\<close>

text \<open>The loop of \<open>applyWithoutTargetImpl\<close> over the named attributes of the annotation.\<close>

fun withoutTarget ::
  "'tok Externals \<Rightarrow> AnnoPathValue \<Rightarrow> DictionaryAttr \<Rightarrow> ApplyState
     \<Rightarrow> DictionaryAttr \<times> ApplyState" where
  "withoutTarget ext target [] state = ([], state)"
| "withoutTarget ext target (na # rest) state =
     (if fst na \<noteq> ''target'' then
        (case withoutTarget ext target rest state of
           (attrs, state') \<Rightarrow> (na # attrs, state'))
      else if \<not> isLocal target then
        (case scatterNonLocalPath ext target state of
           (nlaSym, state1) \<Rightarrow>
             (case withoutTarget ext target rest state1 of
                (attrs, state') \<Rightarrow> ((''circt.nonlocal'', nlaSym) # attrs, state')))
      else withoutTarget ext target rest state)"

definition applyWithoutTargetImpl ::
  "'tok Externals \<Rightarrow> AnnoPathValue \<Rightarrow> DictionaryAttr \<Rightarrow> ApplyState \<Rightarrow> bool
     \<Rightarrow> crash + (bool \<times> ApplyState \<times> DictionaryAttr list)" where
  "applyWithoutTargetImpl ext target anno state allowNonLocal =
     (if \<not> allowNonLocal \<and> \<not> isLocal target then
        Inr (False, emitError (CannotBeNonLocal (getOp (ref target)) anno) state, [])
      else
        (case withoutTarget ext target anno state of
           (newAnnoAttrs, state1) \<Rightarrow>
             (case addAnnotation (ref target) (fieldIdx target) newAnnoAttrs state1 of
                Inl e \<Rightarrow> Inl e
              | Inr state2 \<Rightarrow> Inr (True, state2, []))))"

text \<open>
  The overload of \<open>applyWithoutTarget\<close> with the one template argument \<open>allowNonLocal\<close>,
  which restricts neither the kind of target nor its type.
\<close>

definition applyWithoutTarget ::
  "'tok Externals \<Rightarrow> bool \<Rightarrow> AnnoPathValue \<Rightarrow> DictionaryAttr \<Rightarrow> ApplyState
     \<Rightarrow> crash + (bool \<times> ApplyState \<times> DictionaryAttr list)" where
  "applyWithoutTarget ext allowNonLocal target anno state =
     applyWithoutTargetImpl ext target anno state allowNonLocal"

definition drop_anno ::
  "AnnoPathValue \<Rightarrow> DictionaryAttr \<Rightarrow> ApplyState
     \<Rightarrow> crash + (bool \<times> ApplyState \<times> DictionaryAttr list)" where
  "drop_anno target anno state = Inr (True, state, [])"

subsection \<open>The driving table\<close>

text \<open>
  The four records whose keys are string literals come first in the initializer list;
  the records keyed by the class constants follow.
\<close>

definition annotationRecords :: "'tok Externals \<Rightarrow> string \<Rightarrow> AnnoRecord option" where
  "annotationRecords ext cls =
     (if cls = ''circt.test''
        then Some \<lparr>resolver = stdResolve ext, applier = applyWithoutTarget ext True\<rparr>
      else if cls = ''circt.testLocalOnly''
        then Some \<lparr>resolver = stdResolve ext, applier = applyWithoutTarget ext False\<rparr>
      else if cls = ''circt.testNT''
        then Some \<lparr>resolver = noResolve, applier = applyWithoutTarget ext False\<rparr>
      else if cls = ''circt.missing''
        then Some \<lparr>resolver = tryResolve ext, applier = applyWithoutTarget ext True\<rparr>
      else otherRecords ext cls)"

definition getAnnotationHandler :: "'tok Externals \<Rightarrow> string \<Rightarrow> bool \<Rightarrow> AnnoRecord option" where
  "getAnnotationHandler ext annoStr ignoreUnhandledAnno =
     (case annotationRecords ext annoStr of
        Some r \<Rightarrow> Some r
      | None \<Rightarrow>
          if ignoreUnhandledAnno then annotationRecords ext ''circt.missing'' else None)"

subsection \<open>Applying one annotation\<close>

record PassOptions =
  ignoreUnhandledAnno :: bool
  ignoreClasslessAnno :: bool

definition defaultOptions :: PassOptions where
  "defaultOptions = \<lparr>ignoreUnhandledAnno = False, ignoreClasslessAnno = False\<rparr>"

text \<open>The second half of \<open>applyAnnotation\<close>: resolve with the record, then apply.\<close>

definition resolveAndApply ::
  "AnnoRecord \<Rightarrow> DictionaryAttr \<Rightarrow> ApplyState
     \<Rightarrow> crash + (bool \<times> ApplyState \<times> DictionaryAttr list)" where
  "resolveAndApply r anno state =
     (case resolver r anno state of
        Inl e \<Rightarrow> Inl e
      | Inr (None, state1) \<Rightarrow> Inr (False, emitError (UnableToResolveTarget anno) state1, [])
      | Inr (Some target, state1) \<Rightarrow>
          (case applier r target anno state1 of
             Inl e \<Rightarrow> Inl e
           | Inr (True, state2, added) \<Rightarrow> Inr (True, state2, added)
           | Inr (False, state2, added) \<Rightarrow>
               Inr (False, emitError (UnableToApplyAnnotation anno) state2, added)))"

definition applyAnnotation ::
  "PassOptions \<Rightarrow> 'tok Externals \<Rightarrow> DictionaryAttr \<Rightarrow> ApplyState
     \<Rightarrow> crash + (bool \<times> ApplyState \<times> DictionaryAttr list)" where
  "applyAnnotation opts ext anno state =
     (case (case map_of anno ''class'' of
              Some (StringAttr s) \<Rightarrow> Inr (Some s)
            | Some _ \<Rightarrow> Inl CastFailure
            | None \<Rightarrow> if ignoreClasslessAnno opts then Inr (Some ''circt.missing'') else Inr None) of
        Inl e \<Rightarrow> Inl e
      | Inr None \<Rightarrow> Inr (False, emitError (AnnotationWithoutClass anno) state, [])
      | Inr (Some annoClassVal) \<Rightarrow>
          (case getAnnotationHandler ext annoClassVal False of
             Some r \<Rightarrow> resolveAndApply r anno state
           | None \<Rightarrow>
               (let state1 = state\<lparr>numUnhandled := numUnhandled state + 1\<rparr> in
                if \<not> ignoreUnhandledAnno opts
                then Inr (False, emitError (UnhandledAnnotation anno) state1, [])
                else
                  (case getAnnotationHandler ext annoClassVal (ignoreUnhandledAnno opts) of
                     None \<Rightarrow> Inl AssertionFailure
                   | Some r \<Rightarrow> resolveAndApply r anno state1))))"

subsection \<open>The driver loop\<close>

text \<open>
  \<open>while (!worklistAttrs.empty())\<close>: pop the last annotation, apply it, count a failure;
  what the applier passed to \<open>addToWorklist\<close> has been pushed at the back meanwhile.
  \<open>None\<close> is the loop that does not end.
\<close>

partial_function (option) processWorklist ::
  "PassOptions \<Rightarrow> 'tok Externals \<Rightarrow> nat \<Rightarrow> nat \<Rightarrow> DictionaryAttr list \<Rightarrow> ApplyState
     \<Rightarrow> (crash + (nat \<times> nat \<times> ApplyState)) option" where
  "processWorklist opts ext numFailures numAdded worklistAttrs state =
     (if worklistAttrs = [] then Some (Inr (numFailures, numAdded, state))
      else
        (case applyAnnotation opts ext (last worklistAttrs) state of
           Inl e \<Rightarrow> Some (Inl e)
         | Inr (ok, state', added) \<Rightarrow>
             processWorklist opts ext (if ok then numFailures else numFailures + 1)
               (numAdded + length added) (butlast worklistAttrs @ added) state'))"

text \<open>Populating the worklist: \<open>push_back\<close> of every annotation of the reversed list.\<close>

definition populateWorklist :: "DictionaryAttr list \<Rightarrow> DictionaryAttr list \<Rightarrow> DictionaryAttr list" where
  "populateWorklist worklistAttrs annos = foldl (\<lambda>wl anno. wl @ [anno]) worklistAttrs (rev annos)"



text \<open>
  Applying a list of annotations one after the other from left to right, each on the
  state the one before left; the outcome of each is recorded.
\<close>

fun applyInOrder ::
  "PassOptions \<Rightarrow> 'tok Externals \<Rightarrow> DictionaryAttr list \<Rightarrow> ApplyState
     \<Rightarrow> crash + (bool list \<times> ApplyState)" where
  "applyInOrder opts ext [] state = Inr ([], state)"
| "applyInOrder opts ext (anno # rest) state =
     (case applyAnnotation opts ext anno state of
        Inl e \<Rightarrow> Inl e
      | Inr (ok, state', added) \<Rightarrow>
          (case applyInOrder opts ext rest state' of
             Inl e \<Rightarrow> Inl e
           | Inr (oks, state'') \<Rightarrow> Inr (ok # oks, state'')))"

text \<open>No application of an annotation adds to the worklist.\<close>

definition noneEnqueued :: "PassOptions \<Rightarrow> 'tok Externals \<Rightarrow> bool" where
  "noneEnqueued opts ext =
     (\<forall>anno state ok state' added.
        applyAnnotation opts ext anno state = Inr (ok, state', added) \<longrightarrow> added = [])"

text \<open>
  A small instance of the parameters for running the definitions: the target parser
  accepts the one path \<open>~Top\<close>, which is the circuit, and the table has no record beyond
  the four literal ones. The circuit is operation 0 and carries nothing yet.
\<close>

definition exampleExternals :: "string Externals" where
  "exampleExternals =
     \<lparr>canonicalizeTarget = (\<lambda>s. s),
      tokenizePath = (\<lambda>s. if s = ''~Top'' then Some s else None),
      resolveEntities = (\<lambda>tok state. (Some (circuitTarget state), state)),
      getNLAReference = (\<lambda>inst state. (OtherAttr inst, state)),
      moduleNameAttr = (\<lambda>r. ''Top''),
      symTblInsert = (\<lambda>name state. name),
      otherRecords = (\<lambda>cls. None)\<rparr>"

definition emptyState :: ApplyState where
  "emptyState =
     \<lparr>circuit = 0,
      annotations = (\<lambda>op. None),
      portAnnotations = (\<lambda>op. None),
      numPorts = (\<lambda>op. 0),
      hierPathOps = [],
      instPathToNLAMap = [],
      numReusedHierPaths = 0,
      wiringProblems = [],
      diagnostics = [],
      numUnhandled = 0\<rparr>"


text \<open>
  The small instance with one more record in the table, whose applier adds an annotation
  of class \<open>circt.testNT\<close> to the worklist and leaves the circuit as it is.
\<close>

definition expandingExternals :: "string Externals" where
  "expandingExternals =
     exampleExternals
       \<lparr>otherRecords := (\<lambda>cls.
          if cls = ''example.expand''
          then Some \<lparr>resolver = noResolve,
                     applier = (\<lambda>target anno state.
                        Inr (True, state,
                             [[(''class'', StringAttr ''circt.testNT''), (''n'', IntegerAttr 9)]]))\<rparr>
          else None)\<rparr>"

text \<open>A record whose applier never adds to the worklist.\<close>

definition addsNothing :: "AnnoRecord \<Rightarrow> bool" where
  "addsNothing r =
     (\<forall>target anno state ok state' added.
        applier r target anno state = Inr (ok, state', added) \<longrightarrow> added = [])"

text \<open>
  No application adds to the worklist along the run that applies the annotations in input
  order: what each application passed to \<open>addToWorklist\<close> is nothing. The run ends where
  an application stops the program.
\<close>

fun noneEnqueuedAlong ::
  "PassOptions \<Rightarrow> 'tok Externals \<Rightarrow> DictionaryAttr list \<Rightarrow> ApplyState \<Rightarrow> bool" where
  "noneEnqueuedAlong opts ext [] state = True"
| "noneEnqueuedAlong opts ext (anno # rest) state =
     (case applyAnnotation opts ext anno state of
        Inl e \<Rightarrow> True
      | Inr (ok, state', added) \<Rightarrow> added = [] \<and> noneEnqueuedAlong opts ext rest state')"

text \<open>
  A run of the driver loop, as a relation: from the worklist and the state, the
  applications made in the order they were made, each with its outcome, the number of
  annotations added meanwhile, and the state at the end. An application takes the last
  element of the worklist and pushes what it added at the back.
\<close>

inductive workRun ::
  "PassOptions \<Rightarrow> 'tok Externals \<Rightarrow> DictionaryAttr list \<Rightarrow> ApplyState
     \<Rightarrow> (DictionaryAttr \<times> bool) list \<Rightarrow> nat \<Rightarrow> ApplyState \<Rightarrow> bool"
  for opts :: PassOptions and ext :: "'tok Externals" where
  finished: "workRun opts ext [] state [] 0 state"
| applied: "applyAnnotation opts ext anno state = Inr (ok, state1, added) \<Longrightarrow>
            workRun opts ext (worklist @ added) state1 trace n state' \<Longrightarrow>
            workRun opts ext (worklist @ [anno]) state ((anno, ok) # trace) (length added + n) state'"


section \<open>Path enumeration is the recursive definition\<close>

lemma pathsAt_stable:
  assumes "acyclicBy g rank"
  shows "rank m < n \<Longrightarrow> pathsAt n g m = pathsAt (Suc (rank m)) g m"
proof (induction "rank m" arbitrary: m n rule: less_induct)
  case less
  obtain k where n: "n = Suc k" using less.prems by (cases n) auto
  show ?case
  proof (cases "m = topLevelNode g")
    case True then show ?thesis by (simp add: n)
  next
    case False
    have "pathsAt k g (getParent u) = pathsAt (rank m) g (getParent u)"
      if "u \<in> set (uses g m)" for u
    proof -
      have r: "rank (getParent u) < rank m"
        using assms False that by (auto simp: acyclicBy_def)
      have "pathsAt k g (getParent u) = pathsAt (Suc (rank (getParent u))) g (getParent u)"
        using less.hyps[OF r, of k] r less.prems n by simp
      moreover have "pathsAt (rank m) g (getParent u) = pathsAt (Suc (rank (getParent u))) g (getParent u)"
        using less.hyps[OF r, of "rank m"] r by simp
      ultimately show ?thesis by simp
    qed
    then show ?thesis using False by (simp add: n cong: map_cong)
  qed
qed

lemma pathElems_append: "pathValid al p \<Longrightarrow> pathElems (al @ ext) p = pathElems al p"
  by (cases p) (auto simp: nth_append)

lemma pathValid_append: "pathValid al p \<Longrightarrow> pathValid (al @ ext) p"
  by (cases p) auto

lemma appendAll_spec:
  "appendAll C ps inst acc = (ext, C') \<Longrightarrow>
   \<forall>p \<in> set ps. pathValid (allocator C) p \<Longrightarrow>
   \<forall>p \<in> set acc. pathValid (allocator C) p \<Longrightarrow>
   (\<exists>new. allocator C' = allocator C @ new) \<and>
   instanceGraph C' = instanceGraph C \<and>
   absolutePathsCache C' = absolutePathsCache C \<and>
   (\<forall>p \<in> set ext. pathValid (allocator C') p) \<and>
   map (pathElems (allocator C')) ext =
     map (pathElems (allocator C)) acc @ map (\<lambda>p. pathElems (allocator C) p @ [inst]) ps"
proof (induction ps arbitrary: C acc)
  case Nil
  then show ?case by auto
next
  case (Cons p ps)
  let ?al = "allocator C"
  let ?C1 = "C\<lparr>allocator := ?al @ [pathElems ?al p @ [inst]]\<rparr>"
  have step: "appendAll ?C1 ps inst (acc @ [ArenaPath (length ?al)]) = (ext, C')"
    using Cons.prems(1) by (simp add: appendInstance_def Let_def)
  have v1: "\<forall>q \<in> set ps. pathValid (allocator ?C1) q"
    using Cons.prems(2) by (auto intro: pathValid_append)
  have v2: "\<forall>q \<in> set (acc @ [ArenaPath (length ?al)]). pathValid (allocator ?C1) q"
    using Cons.prems(3) by (auto intro: pathValid_append)
  note IH = Cons.IH[OF step v1 v2]
  have e1: "map (pathElems (allocator ?C1)) acc = map (pathElems ?al) acc"
    using Cons.prems(3) by (auto simp: pathElems_append)
  have e2: "map (\<lambda>q. pathElems (allocator ?C1) q @ [inst]) ps = map (\<lambda>q. pathElems ?al q @ [inst]) ps"
    using Cons.prems(2) by (auto simp: pathElems_append)
  have e3: "pathElems (allocator ?C1) (ArenaPath (length ?al)) = pathElems ?al p @ [inst]"
    by simp
  from IH show ?case
    using e1 e2 e3 by auto
qed

lemma cacheConsistent_grow:
  assumes "cacheConsistent P C" "allocator C' = allocator C @ new"
    "absolutePathsCache C' = absolutePathsCache C"
  shows "cacheConsistent P C'"
  unfolding cacheConsistent_def
proof (intro ballI, clarify)
  fix m ps assume mem: "(m, ps) \<in> set (absolutePathsCache C')"
  then have old: "(\<forall>p \<in> set ps. pathValid (allocator C) p) \<and> map (pathElems (allocator C)) ps = P m"
    using assms(1,3) by (auto simp: cacheConsistent_def)
  have "map (pathElems (allocator C @ new)) ps = map (pathElems (allocator C)) ps"
    by (rule map_cong) (use old in \<open>auto simp: pathElems_append\<close>)
  then have "map (pathElems (allocator C')) ps = map (pathElems (allocator C)) ps"
    by (simp add: assms(2))
  with old show "(\<forall>p \<in> set ps. pathValid (allocator C') p) \<and> map (pathElems (allocator C')) ps = P m"
    by (auto simp: assms(2) intro: pathValid_append)
qed

lemma cacheConsistent_insert:
  assumes "cacheConsistent P C" "\<forall>p \<in> set ps. pathValid (allocator C) p"
    "map (pathElems (allocator C)) ps = P m"
  shows "cacheConsistent P (cacheInsert C m ps)"
  using assms by (auto simp: cacheConsistent_def cacheInsert_def split: option.splits)

lemma cacheInsert_fields:
  "instanceGraph (cacheInsert C m ps) = instanceGraph C"
  "allocator (cacheInsert C m ps) = allocator C"
  by (auto simp: cacheInsert_def split: option.splits)

lemma cached_entry:
  "cacheConsistent P C \<Longrightarrow> map_of (absolutePathsCache C) m = Some ps \<Longrightarrow>
   (\<forall>p \<in> set ps. pathValid (allocator C) p) \<and> map (pathElems (allocator C)) ps = P m"
  by (auto simp: cacheConsistent_def dest!: map_of_SomeD)

lemma extendPaths_step:
  assumes S: "\<And>C m. instanceGraph C = g \<Longrightarrow> cacheConsistent P C \<Longrightarrow> rank m < n \<Longrightarrow>
               \<exists>ps C'. getAbsolutePaths n C m = Some (ps, C') \<and> pathsResult P C C' ps (P m)"
  shows "instanceGraph C = g \<Longrightarrow> cacheConsistent P C \<Longrightarrow>
         \<forall>u \<in> set us. rank (getParent u) < n \<Longrightarrow>
         \<forall>p \<in> set acc. pathValid (allocator C) p \<Longrightarrow>
         \<exists>ext C'. extendPaths n C us acc = Some (ext, C') \<and>
           pathsResult P C C' ext
             (map (pathElems (allocator C)) acc @
              concat (map (\<lambda>u. map (\<lambda>p. p @ [getInstance u]) (P (getParent u))) us))"
proof (induction us arbitrary: C acc)
  case Nil
  then show ?case by (simp add: pathsResult_def)
next
  case (Cons u us)
  have r: "rank (getParent u) < n" using Cons.prems(3) by simp
  obtain ps C1 where g1: "getAbsolutePaths n C (getParent u) = Some (ps, C1)"
    and r1: "pathsResult P C C1 ps (P (getParent u))"
    using S[OF Cons.prems(1,2) r] by blast
  obtain new1 where al1: "allocator C1 = allocator C @ new1"
    using r1 by (auto simp: pathsResult_def)
  obtain ext C2 where a2: "appendAll C1 ps (getInstance u) acc = (ext, C2)"
    by (cases "appendAll C1 ps (getInstance u) acc") auto
  have vps: "\<forall>p \<in> set ps. pathValid (allocator C1) p"
    using r1 by (simp add: pathsResult_def)
  have vacc: "\<forall>p \<in> set acc. pathValid (allocator C1) p"
    using Cons.prems(4) al1 by (auto intro: pathValid_append)
  note A = appendAll_spec[OF a2 vps vacc]
  obtain new2 where al2: "allocator C2 = allocator C1 @ new2" using A by blast
  have g2: "instanceGraph C2 = g" using A r1 Cons.prems(1) by (simp add: pathsResult_def)
  have c2: "cacheConsistent P C2"
    using cacheConsistent_grow[of P C1 C2 new2] r1 A al2 by (simp add: pathsResult_def)
  have vext: "\<forall>p \<in> set ext. pathValid (allocator C2) p" using A by blast
  obtain ext' C' where e3: "extendPaths n C2 us ext = Some (ext', C')"
    and r3: "pathsResult P C2 C' ext'
        (map (pathElems (allocator C2)) ext @
         concat (map (\<lambda>u. map (\<lambda>p. p @ [getInstance u]) (P (getParent u))) us))"
    using Cons.IH[OF g2 c2 _ vext] Cons.prems(3) by auto
  have rd: "map (pathElems (allocator C2)) ext =
      map (pathElems (allocator C)) acc @ map (\<lambda>p. p @ [getInstance u]) (P (getParent u))"
  proof -
    have "map (pathElems (allocator C1)) acc = map (pathElems (allocator C)) acc"
      using Cons.prems(4) al1 by (auto simp: pathElems_append)
    moreover have "map (\<lambda>p. pathElems (allocator C1) p @ [getInstance u]) ps =
        map (\<lambda>p. p @ [getInstance u]) (map (pathElems (allocator C1)) ps)"
      by simp
    moreover have "map (pathElems (allocator C1)) ps = P (getParent u)"
      using r1 by (simp add: pathsResult_def)
    ultimately show ?thesis using A by simp
  qed
  have run: "extendPaths n C (u # us) acc = Some (ext', C')"
    using g1 a2 e3 by simp
  have "pathsResult P C C' ext'
      (map (pathElems (allocator C)) acc @
       concat (map (\<lambda>u. map (\<lambda>p. p @ [getInstance u]) (P (getParent u))) (u # us)))"
    using r3 rd al1 al2 g2 Cons.prems(1) by (auto simp: pathsResult_def)
  with run show ?case by blast
qed

lemma pathsAt_unfold:
  assumes "acyclicBy g rank" "m \<noteq> topLevelNode g"
  shows "pathsAt (Suc (rank m)) g m =
     concat (map (\<lambda>u. map (\<lambda>p. p @ [getInstance u])
       (pathsAt (Suc (rank (getParent u))) g (getParent u))) (uses g m))"
proof -
  have "pathsAt (rank m) g (getParent u) = pathsAt (Suc (rank (getParent u))) g (getParent u)"
    if "u \<in> set (uses g m)" for u
    using pathsAt_stable[OF assms(1), of "getParent u" "rank m"] assms that
    by (auto simp: acyclicBy_def)
  then show ?thesis using assms(2) by (simp cong: map_cong)
qed

lemma getAbsolutePaths_main:
  assumes acyc: "acyclicBy g rank"
    and P: "P = (\<lambda>m. pathsAt (Suc (rank m)) g m)"
  shows "instanceGraph C = g \<Longrightarrow> cacheConsistent P C \<Longrightarrow> rank m < n \<Longrightarrow>
         \<exists>ps C'. getAbsolutePaths n C m = Some (ps, C') \<and> pathsResult P C C' ps (P m)"
proof (induction n arbitrary: C m)
  case 0
  then show ?case by simp
next
  case (Suc n)
  show ?case
  proof (cases "m = topLevelNode g")
    case True
    then show ?thesis using Suc.prems by (simp add: pathsResult_def P)
  next
    case notTop: False
    show ?thesis
    proof (cases "map_of (absolutePathsCache C) m")
      case (Some cached)
      then show ?thesis
        using notTop Suc.prems cached_entry[OF Suc.prems(2) Some]
        by (simp add: pathsResult_def)
    next
      case None
      have rk: "\<forall>u \<in> set (uses g m). rank (getParent u) < n"
        using acyc notTop Suc.prems(3) by (fastforce simp: acyclicBy_def)
      obtain ext C' where e: "extendPaths n C (uses g m) [] = Some (ext, C')"
        and r: "pathsResult P C C' ext
            (concat (map (\<lambda>u. map (\<lambda>p. p @ [getInstance u]) (P (getParent u))) (uses g m)))"
        using extendPaths_step[of g P rank n C "uses g m" "[]", OF Suc.IH Suc.prems(1,2) rk]
        by auto
      have want: "concat (map (\<lambda>u. map (\<lambda>p. p @ [getInstance u]) (P (getParent u))) (uses g m)) = P m"
        using pathsAt_unfold[OF acyc notTop] by (simp add: P)
      have run: "getAbsolutePaths (Suc n) C m = Some (ext, cacheInsert C' m ext)"
        using notTop None e Suc.prems(1) by simp
      have "pathsResult P C (cacheInsert C' m ext) ext (P m)"
        using r want cacheConsistent_insert[of P C' ext m]
        by (auto simp: pathsResult_def cacheInsert_fields)
      with run show ?thesis by blast
    qed
  qed
qed

text \<open>
  Claim C1. On an instance graph whose use edges are acyclic (some rank decreases from
  every non-root module to the parent of each of its uses), \<open>getAbsolutePaths\<close> returns,
  whenever the recursion depth allowed exceeds the rank of the module, the value of a
  function \<open>P\<close> that satisfies the recursive definition: the root has exactly the one
  empty path; every other module has the concatenation, over its uses in order, of the
  parent's paths each extended by the instance of that use; a non-root module without
  uses has no path. This holds from the empty cache and from every cache that agrees with
  \<open>P\<close>, and the cache left behind agrees with \<open>P\<close> again.
\<close>

theorem getAbsolutePaths_recursive_definition:
  assumes "acyclicBy g rank"
  shows "\<exists>P. P (topLevelNode g) = [[]] \<and>
     (\<forall>m. m \<noteq> topLevelNode g \<longrightarrow>
        P m = concat (map (\<lambda>u. map (\<lambda>p. p @ [getInstance u]) (P (getParent u))) (uses g m))) \<and>
     (\<forall>m. m \<noteq> topLevelNode g \<longrightarrow> uses g m = [] \<longrightarrow> P m = []) \<and>
     cacheConsistent P (newInstancePathCache g) \<and>
     (\<forall>C m n. instanceGraph C = g \<longrightarrow> cacheConsistent P C \<longrightarrow> rank m < n \<longrightarrow>
        (\<exists>ps C'. getAbsolutePaths n C m = Some (ps, C') \<and>
           map (pathElems (allocator C')) ps = P m \<and>
           instanceGraph C' = g \<and> cacheConsistent P C'))"
proof -
  define P where "P = (\<lambda>m. pathsAt (Suc (rank m)) g m)"
  have root: "P (topLevelNode g) = [[]]" by (simp add: P_def)
  have step: "P m = concat (map (\<lambda>u. map (\<lambda>p. p @ [getInstance u]) (P (getParent u))) (uses g m))"
    if "m \<noteq> topLevelNode g" for m
    using pathsAt_unfold[OF assms that] by (simp add: P_def)
  have leaf: "P m = []" if "m \<noteq> topLevelNode g" "uses g m = []" for m
    using step[OF that(1)] that(2) by simp
  have fresh: "cacheConsistent P (newInstancePathCache g)"
    by (simp add: cacheConsistent_def newInstancePathCache_def)
  have run: "\<exists>ps C'. getAbsolutePaths n C m = Some (ps, C') \<and>
           map (pathElems (allocator C')) ps = P m \<and>
           instanceGraph C' = g \<and> cacheConsistent P C'"
    if "instanceGraph C = g" "cacheConsistent P C" "rank m < n" for C m n
    using getAbsolutePaths_main[OF assms P_def that] that(1)
    by (auto simp: pathsResult_def)
  show ?thesis
    using root step leaf fresh run by blast
qed

theorem getAbsolutePaths_recursive_definition_witness:
  "acyclicBy chainGraph (\<lambda>m. m) \<and>
   (\<exists>ps C'. getAbsolutePaths 3 (newInstancePathCache chainGraph) 2 = Some (ps, C') \<and>
      map (pathElems (allocator C')) ps = [[10, 20]]) \<and>
   (\<exists>ps C'. getAbsolutePaths 4 (newInstancePathCache chainGraph) 3 = Some (ps, C') \<and>
      map (pathElems (allocator C')) ps = [[30], [31]]) \<and>
   (\<exists>ps C'. getAbsolutePaths 5 (newInstancePathCache chainGraph) 4 = Some (ps, C') \<and>
      map (pathElems (allocator C')) ps = [])"
proof -
  have acyc: "acyclicBy chainGraph (\<lambda>m. m)"
    by (auto simp: acyclicBy_def chainGraph_def)
  have g: "instanceGraph (newInstancePathCache chainGraph) = chainGraph"
    by (simp add: newInstancePathCache_def)
  obtain P where root: "P (topLevelNode chainGraph) = [[]]"
    and step: "\<And>m. m \<noteq> topLevelNode chainGraph \<Longrightarrow>
        P m = concat (map (\<lambda>u. map (\<lambda>p. p @ [getInstance u]) (P (getParent u))) (uses chainGraph m))"
    and fresh: "cacheConsistent P (newInstancePathCache chainGraph)"
    and run: "\<And>C m n. instanceGraph C = chainGraph \<Longrightarrow> cacheConsistent P C \<Longrightarrow> m < n \<Longrightarrow>
        \<exists>ps C'. getAbsolutePaths n C m = Some (ps, C') \<and>
           map (pathElems (allocator C')) ps = P m \<and>
           instanceGraph C' = chainGraph \<and> cacheConsistent P C'"
    using getAbsolutePaths_recursive_definition[OF acyc] by blast
  have P0: "P 0 = [[]]" using root by (simp add: chainGraph_def)
  have P1: "P 1 = [[10]]" using step[of 1] P0 by (simp add: chainGraph_def)
  have P2: "P 2 = [[10, 20]]" using step[of 2] P1 by (simp add: chainGraph_def)
  have P3: "P 3 = [[30], [31]]" using step[of 3] P0 by (simp add: chainGraph_def)
  have P4: "P 4 = []" using step[of 4] by (simp add: chainGraph_def)
  have r2: "\<exists>ps C'. getAbsolutePaths 3 (newInstancePathCache chainGraph) 2 = Some (ps, C') \<and>
      map (pathElems (allocator C')) ps = [[10, 20]]"
    using run[OF g fresh, of 2 3, simplified] unfolding P2 by auto
  have r3: "\<exists>ps C'. getAbsolutePaths 4 (newInstancePathCache chainGraph) 3 = Some (ps, C') \<and>
      map (pathElems (allocator C')) ps = [[30], [31]]"
    using run[OF g fresh, of 3 4, simplified] unfolding P3 by auto
  have r4: "\<exists>ps C'. getAbsolutePaths 5 (newInstancePathCache chainGraph) 4 = Some (ps, C') \<and>
      map (pathElems (allocator C')) ps = []"
    using run[OF g fresh, of 4 5, simplified] unfolding P4 by auto
  show ?thesis
    using acyc r2 r3 r4 by blast
qed

text \<open>On an acyclic graph the recursive definition has one solution only.\<close>

lemma recursive_definition_unique:
  assumes acyc: "acyclicBy g rank"
    and P: "P (topLevelNode g) = [[]]"
      "\<And>m. m \<noteq> topLevelNode g \<Longrightarrow>
         P m = concat (map (\<lambda>u. map (\<lambda>p. p @ [getInstance u]) (P (getParent u))) (uses g m))"
    and Q: "Q (topLevelNode g) = [[]]"
      "\<And>m. m \<noteq> topLevelNode g \<Longrightarrow>
         Q m = concat (map (\<lambda>u. map (\<lambda>p. p @ [getInstance u]) (Q (getParent u))) (uses g m))"
  shows "P m = Q m"
proof (induction "rank m" arbitrary: m rule: less_induct)
  case less
  show ?case
  proof (cases "m = topLevelNode g")
    case True
    then show ?thesis using P(1) Q(1) by simp
  next
    case False
    have "P (getParent u) = Q (getParent u)" if "u \<in> set (uses g m)" for u
      using less.hyps[of "getParent u"] acyc False that by (auto simp: acyclicBy_def)
    then show ?thesis using P(2)[OF False] Q(2)[OF False] by (simp cong: map_cong)
  qed
qed

section \<open>Cache maintenance on instance replacement\<close>

text \<open>A cache that agrees with the path sets refers to allocated arrays only.\<close>

lemma cacheConsistent_valid: "cacheConsistent P C \<Longrightarrow> cacheValid C"
  by (auto simp: cacheConsistent_def cacheValid_def list_all_iff)

lemma findOp_mem: "x \<in> set ys \<Longrightarrow> findOp ys x < length ys \<and> ys ! findOp ys x = x"
  by (induction ys) auto

lemma findOp_notmem: "x \<notin> set ys \<Longrightarrow> findOp ys x = length ys"
  by (induction ys) auto

lemma findOp_end_iff: "findOp ys x = length ys \<longleftrightarrow> x \<notin> set ys"
  using findOp_mem[of x ys] findOp_notmem[of x ys] by auto

lemma pathReplaced_grow:
  assumes "pathReplaced al al' oldOp newOp p p'" "pathValid al0 p"
    "al = al0 @ e1" "pathValid al' p'"
  shows "pathReplaced al0 (al' @ e2) oldOp newOp p p'"
proof -
  have r: "pathElems al p = pathElems al0 p" using assms(2,3) by (simp add: pathElems_append)
  have r': "pathElems (al' @ e2) p' = pathElems al' p'" using assms(4) by (simp add: pathElems_append)
  show ?thesis
    using assms(1) unfolding pathReplaced_def r r' Let_def
    by (auto simp: assms(3) split: InstancePath.splits)
qed

lemma updatePaths_spec:
  "updatePaths al ps oldOp newOp upd = (upd', al') \<Longrightarrow>
   list_all (pathValid al) ps \<Longrightarrow>
   \<exists>ext qs. al' = al @ ext \<and> upd' = upd @ qs \<and>
     list_all (pathValid al') qs \<and>
     list_all2 (pathReplaced al al' oldOp newOp) ps qs"
proof (induction ps arbitrary: al upd)
  case Nil
  then show ?case by simp
next
  case (Cons p ps)
  let ?e = "pathElems al p"
  show ?case
  proof (cases "oldOp \<in> set ?e")
    case False
    then have f: "findOp ?e oldOp = length ?e" by (simp add: findOp_notmem)
    have step: "updatePaths al ps oldOp newOp (upd @ [p]) = (upd', al')"
      using Cons.prems(1) f by (simp add: Let_def)
    obtain ext qs where IH: "al' = al @ ext" "upd' = (upd @ [p]) @ qs"
      "list_all (pathValid al') qs" "list_all2 (pathReplaced al al' oldOp newOp) ps qs"
      using Cons.IH[OF step] Cons.prems(2) by auto
    have vp: "pathValid al' p" using Cons.prems(2) IH(1) by (simp add: pathValid_append)
    have "pathReplaced al al' oldOp newOp p p"
      using False Cons.prems(2) IH(1) by (simp add: pathReplaced_def pathElems_append)
    then show ?thesis using IH vp by (intro exI[of _ ext] exI[of _ "p # qs"]) simp
  next
    case True
    then have f: "findOp ?e oldOp < length ?e" "?e ! findOp ?e oldOp = oldOp"
      using findOp_mem by auto
    let ?al1 = "al @ [?e[findOp ?e oldOp := newOp]]"
    let ?q = "ArenaPath (length al)"
    have step: "updatePaths ?al1 ps oldOp newOp (upd @ [?q]) = (upd', al')"
      using Cons.prems(1) f by (simp add: Let_def)
    have v: "list_all (pathValid ?al1) ps"
      using Cons.prems(2) by (auto simp: list_all_iff intro: pathValid_append)
    obtain ext qs where IH: "al' = ?al1 @ ext" "upd' = (upd @ [?q]) @ qs"
      "list_all (pathValid al') qs" "list_all2 (pathReplaced ?al1 al' oldOp newOp) ps qs"
      using Cons.IH[OF step v] by auto
    have tl: "list_all2 (pathReplaced al al' oldOp newOp) ps qs"
    proof -
      have "pathReplaced al (al' @ []) oldOp newOp a b"
        if "pathReplaced ?al1 al' oldOp newOp a b" "a \<in> set ps" "b \<in> set qs" for a b
        using pathReplaced_grow[OF that(1), of al "[?e[findOp ?e oldOp := newOp]]" "[]"]
          Cons.prems(2) IH(3) that(2,3) by (auto simp: list_all_iff)
      then show ?thesis by (auto intro: list.rel_mono_strong[OF IH(4)])
    qed
    have hd: "pathReplaced al al' oldOp newOp p ?q"
      using True f IH(1) by (simp add: pathReplaced_def nth_append)
    have vq: "pathValid al' ?q" using IH(1) by simp
    show ?thesis using IH tl hd vq
      by (intro exI[of _ "[?e[findOp ?e oldOp := newOp]] @ ext"] exI[of _ "?q # qs"]) simp
  qed
qed


lemma instanceExists_grow:
  "list_all (pathValid al) ps \<Longrightarrow> instanceExists (al @ ext) oldOp ps = instanceExists al oldOp ps"
  by (induction ps) (auto simp: instanceExists_def pathElems_append)

lemma pathReplaced_same:
  assumes "pathValid al p" "oldOp \<notin> set (pathElems al p)"
  shows "pathReplaced al (al @ ext) oldOp newOp p p"
  using assms by (simp add: pathReplaced_def pathElems_append)

lemma entryReplaced_same:
  assumes "list_all (pathValid al) (snd e)" "\<not> instanceExists al oldOp (snd e)"
  shows "entryReplaced al (al @ ext) oldOp newOp e e"
proof -
  have "pathReplaced al (al @ ext) oldOp newOp p p" if "p \<in> set (snd e)" for p
    using assms that by (intro pathReplaced_same) (auto simp: list_all_iff instanceExists_def list_ex_iff)
  then have "list_all2 (pathReplaced al (al @ ext) oldOp newOp) (snd e) (snd e)"
    by (simp add: list_all2_same)
  then show ?thesis by (simp add: entryReplaced_def)
qed

lemma entryReplaced_grow:
  assumes "entryReplaced (al0 @ e1) al' oldOp newOp e e'"
    "list_all (pathValid al0) (snd e)" "list_all (pathValid al') (snd e')"
  shows "entryReplaced al0 (al' @ e2) oldOp newOp e e'"
proof -
  have "pathReplaced al0 (al' @ e2) oldOp newOp a b"
    if "pathReplaced (al0 @ e1) al' oldOp newOp a b" "a \<in> set (snd e)" "b \<in> set (snd e')" for a b
    using pathReplaced_grow[OF that(1), of al0 e1 e2] assms(2,3) that(2,3)
    by (auto simp: list_all_iff)
  then have "list_all2 (pathReplaced al0 (al' @ e2) oldOp newOp) (snd e) (snd e')"
    using assms(1) by (auto simp: entryReplaced_def intro: list.rel_mono_strong)
  then show ?thesis
    using assms(1,2) by (simp add: entryReplaced_def instanceExists_grow)
qed

lemma replaceInEntries_spec:
  "replaceInEntries al es oldOp newOp = (es', al') \<Longrightarrow>
   list_all (\<lambda>e. list_all (pathValid al) (snd e)) es \<Longrightarrow>
   \<exists>ext. al' = al @ ext \<and>
     list_all2 (entryReplaced al al' oldOp newOp) es es' \<and>
     list_all (\<lambda>e. list_all (pathValid al') (snd e)) es'"
proof (induction es arbitrary: al es')
  case Nil
  then show ?case by simp
next
  case (Cons e es)
  obtain m paths where e: "e = (m, paths)" by (cases e)
  have vp: "list_all (pathValid al) paths" and ves: "list_all (\<lambda>e. list_all (pathValid al) (snd e)) es"
    using Cons.prems(2) e by auto
  show ?case
  proof (cases "instanceExists al oldOp paths")
    case False
    obtain rest' where run: "replaceInEntries al es oldOp newOp = (rest', al')"
      and es': "es' = (m, paths) # rest'"
      using Cons.prems(1) e False by (auto split: prod.splits)
    obtain ext where IH: "al' = al @ ext" "list_all2 (entryReplaced al al' oldOp newOp) es rest'"
      "list_all (\<lambda>e. list_all (pathValid al') (snd e)) rest'"
      using Cons.IH[OF run ves] by auto
    have hd: "entryReplaced al al' oldOp newOp e e"
      using entryReplaced_same[of al e oldOp ext newOp] vp False e IH(1) by simp
    have "list_all (pathValid al') paths"
      using vp IH(1) by (auto simp: list_all_iff intro: pathValid_append)
    then show ?thesis using IH hd e es' by auto
  next
    case True
    obtain upd al1 where u: "updatePaths al paths oldOp newOp [] = (upd, al1)"
      by (cases "updatePaths al paths oldOp newOp []") auto
    obtain rest' where run: "replaceInEntries al1 es oldOp newOp = (rest', al')"
      and es': "es' = (m, upd) # rest'"
      using Cons.prems(1) e True u by (auto split: prod.splits)
    obtain ext1 where U: "al1 = al @ ext1" "list_all (pathValid al1) upd"
      "list_all2 (pathReplaced al al1 oldOp newOp) paths upd"
      using updatePaths_spec[OF u vp] by auto
    have ves1: "list_all (\<lambda>e. list_all (pathValid al1) (snd e)) es"
      using ves U(1) by (auto simp: list_all_iff intro: pathValid_append)
    obtain ext2 where IH: "al' = al1 @ ext2" "list_all2 (entryReplaced al1 al' oldOp newOp) es rest'"
      "list_all (\<lambda>e. list_all (pathValid al') (snd e)) rest'"
      using Cons.IH[OF run ves1] by auto
    have tl: "list_all2 (entryReplaced al al' oldOp newOp) es rest'"
    proof -
      have "entryReplaced al (al' @ []) oldOp newOp a b"
        if "entryReplaced al1 al' oldOp newOp a b" "a \<in> set es" "b \<in> set rest'" for a b
        using entryReplaced_grow[of al ext1 al' oldOp newOp a b "[]"] that ves IH(3) U(1)
        by (auto simp: list_all_iff)
      then show ?thesis by (auto intro: list.rel_mono_strong[OF IH(2)])
    qed
    have hdp: "list_all2 (pathReplaced al al' oldOp newOp) paths upd"
    proof -
      have "pathReplaced al (al1 @ ext2) oldOp newOp a b"
        if "pathReplaced al al1 oldOp newOp a b" "a \<in> set paths" "b \<in> set upd" for a b
        using pathReplaced_grow[OF that(1), of al "[]" ext2] vp U(2) that(2,3)
        by (auto simp: list_all_iff)
      then show ?thesis unfolding IH(1) by (auto intro: list.rel_mono_strong[OF U(3)])
    qed
    have hd: "entryReplaced al al' oldOp newOp e (m, upd)"
      using hdp True e by (simp add: entryReplaced_def)
    have vu: "list_all (pathValid al') upd"
      using U(2) IH(1) by (auto simp: list_all_iff intro: pathValid_append)
    show ?thesis using IH U(1) tl hd vu es' by auto
  qed
qed

text \<open>
  Claim C2. After \<open>replaceInstance oldOp newOp\<close> the cache has the same entries for the
  same modules in the same order. In an entry, a path that contained \<open>oldOp\<close> is a path of
  equal length with \<open>newOp\<close> at the position of \<open>oldOp\<close>, stored in an array allocated
  by this call; a path that did not contain it is the same array with the same contents;
  an entry none of whose paths contains \<open>oldOp\<close> is left as it was. The allocator before
  the call is an initial segment of the allocator after it: no array that existed is
  written.
\<close>

theorem replaceInstance_rewrites_cached_paths:
  assumes "cacheValid C"
  shows "list_all2 (entryReplaced (allocator C) (allocator (replaceInstance C oldOp newOp)) oldOp newOp)
           (absolutePathsCache C) (absolutePathsCache (replaceInstance C oldOp newOp)) \<and>
         take (length (allocator C)) (allocator (replaceInstance C oldOp newOp)) = allocator C \<and>
         cacheValid (replaceInstance C oldOp newOp)"
proof -
  obtain es' al' where r: "replaceInEntries (allocator C) (absolutePathsCache C) oldOp newOp = (es', al')"
    by (cases "replaceInEntries (allocator C) (absolutePathsCache C) oldOp newOp") auto
  have C': "absolutePathsCache (replaceInstance C oldOp newOp) = es'"
    "allocator (replaceInstance C oldOp newOp) = al'"
    using r by (simp_all add: replaceInstance_def)
  obtain ext where S: "al' = allocator C @ ext"
    "list_all2 (entryReplaced (allocator C) al' oldOp newOp) (absolutePathsCache C) es'"
    "list_all (\<lambda>e. list_all (pathValid al') (snd e)) es'"
    using replaceInEntries_spec[OF r] assms by (auto simp: cacheValid_def)
  show ?thesis using S by (simp add: C' cacheValid_def)
qed

theorem replaceInstance_rewrites_cached_paths_witness:
  "cacheValid chainCache \<and>
   absolutePathsCache (replaceInstance chainCache 10 11) =
     [(1, [ArenaPath 4]), (2, [ArenaPath 5]), (3, [ArenaPath 2, ArenaPath 3])] \<and>
   allocator (replaceInstance chainCache 10 11) = [[10], [10, 20], [30], [31], [11], [11, 20]] \<and>
   list_all2 (entryReplaced (allocator chainCache) (allocator (replaceInstance chainCache 10 11)) 10 11)
     (absolutePathsCache chainCache) (absolutePathsCache (replaceInstance chainCache 10 11))"
proof -
  have v: "cacheValid chainCache" by (simp add: cacheValid_def chainCache_def)
  have c: "absolutePathsCache (replaceInstance chainCache 10 11) =
     [(1, [ArenaPath 4]), (2, [ArenaPath 5]), (3, [ArenaPath 2, ArenaPath 3])]"
    by (simp add: replaceInstance_def chainCache_def instanceExists_def Let_def)
  have a: "allocator (replaceInstance chainCache 10 11) = [[10], [10, 20], [30], [31], [11], [11, 20]]"
    by (simp add: replaceInstance_def chainCache_def instanceExists_def Let_def)
  show ?thesis
    using v c a replaceInstance_rewrites_cached_paths[OF v, of 10 11] by simp
qed

section \<open>The dominance check\<close>

lemma foldl_markSeen:
  "foldl markSeen (seen, wl) ms = (seen', wl') \<Longrightarrow>
   seen' = seen \<union> set ms \<and> (\<exists>new. wl' = wl @ new \<and> set new = set ms - seen \<and> distinct new)"
proof (induction ms arbitrary: seen wl)
  case Nil
  then show ?case by simp
next
  case (Cons m ms)
  show ?case
  proof (cases "m \<in> seen")
    case True
    then have "foldl markSeen (seen, wl) ms = (seen', wl')" using Cons.prems by simp
    from Cons.IH[OF this] True show ?thesis by auto
  next
    case False
    then have "foldl markSeen (insert m seen, wl @ [m]) ms = (seen', wl')" using Cons.prems by simp
    from Cons.IH[OF this] obtain new where
      n: "seen' = insert m seen \<union> set ms" "wl' = (wl @ [m]) @ new"
         "set new = set ms - insert m seen" "distinct new" by auto
    have a: "set (m # new) = set (m # ms) - seen" using n(3) False by auto
    have b: "distinct (m # new)" using n(3,4) by auto
    have c: "wl' = wl @ (m # new)" using n(2) by simp
    have d: "seen' = seen \<union> set (m # ms)" using n(1) by auto
    show ?thesis using a b c d by (intro conjI exI[of _ "m # new"])
  qed
qed

lemma climbs_closed:
  assumes "loopInv g topN S seen []"
  shows "climbs g topN S \<subseteq> seen - {topN}"
proof
  fix m assume "m \<in> climbs g topN S"
  then show "m \<in> seen - {topN}"
  proof (induction rule: climbs.induct)
    case (start m)
    then show ?case using assms by (auto simp: loopInv_def)
  next
    case (step m u)
    then have "getParent ` set (uses g m) \<subseteq> seen" using assms by (simp add: loopInv_def)
    then show ?case using step by auto
  qed
qed

lemma allUnderLoop_correct:
  assumes fin: "finite U" and par: "\<And>m. getParent ` set (uses g m) \<subseteq> U"
  shows "loopInv g topN S seen wl \<Longrightarrow>
         allUnderLoop g topN seen wl = Some (Inr (\<forall>m \<in> climbs g topN S. \<not> noUses g m))"
proof (induction "2 * card (U - seen) + length wl" arbitrary: seen wl rule: less_induct)
  case less
  note inv = less.prems
  show ?case
  proof (cases "wl = []")
    case True
    have "climbs g topN S \<subseteq> seen - {topN}" using climbs_closed inv True by simp
    then have "\<forall>m \<in> climbs g topN S. \<not> noUses g m"
      using inv True by (auto simp: loopInv_def)
    then show ?thesis using True by (subst allUnderLoop.simps) simp
  next
    case False
    then obtain wl0 node where wl: "wl = wl0 @ [node]" by (metis rev_exhaust)
    have nodeIn: "node \<in> seen" "node \<noteq> topN" "node \<in> climbs g topN S"
      using inv wl by (auto simp: loopInv_def)
    show ?thesis
    proof (cases "noUses g node")
      case True
      then have "\<not> (\<forall>m \<in> climbs g topN S. \<not> noUses g m)" using nodeIn by blast
      then show ?thesis using wl nodeIn True by (subst allUnderLoop.simps) (simp add: Let_def)
    next
      case notRoot: False
      let ?P = "getParent ` set (uses g node)"
      obtain seen' wl' where f: "foldl markSeen (seen, wl0) (map getParent (uses g node)) = (seen', wl')"
        by (cases "foldl markSeen (seen, wl0) (map getParent (uses g node))") auto
      from foldl_markSeen[OF f] obtain new where
        n: "seen' = seen \<union> ?P" "wl' = wl0 @ new" "set new = ?P - seen" "distinct new" by auto
      have unfold: "allUnderLoop g topN seen wl = allUnderLoop g topN seen' wl'"
        using wl nodeIn notRoot f by (subst allUnderLoop.simps) (simp add: Let_def)
      have inv': "loopInv g topN S seen' wl'"
        unfolding loopInv_def
      proof (intro conjI)
        show "topN \<in> seen'" using inv n by (auto simp: loopInv_def)
        show "S \<subseteq> seen'" using inv n by (auto simp: loopInv_def)
        show "set wl' \<subseteq> seen' - {topN}" using inv n wl by (auto simp: loopInv_def)
        show "seen' - {topN} \<subseteq> climbs g topN S"
        proof
          fix m assume m: "m \<in> seen' - {topN}"
          show "m \<in> climbs g topN S"
          proof (cases "m \<in> seen")
            case True then show ?thesis using inv m by (auto simp: loopInv_def)
          next
            case False
            then obtain u where "u \<in> set (uses g node)" "m = getParent u" using m n(1) by auto
            then show ?thesis using climbs.step[OF nodeIn(3), of u] m by auto
          qed
        qed
        show "\<forall>m \<in> seen' - {topN} - set wl'. \<not> noUses g m \<and> getParent ` set (uses g m) \<subseteq> seen'"
        proof
          fix m assume m: "m \<in> seen' - {topN} - set wl'"
          then have ms: "m \<in> seen" "m \<notin> set wl0" using n by auto
          show "\<not> noUses g m \<and> getParent ` set (uses g m) \<subseteq> seen'"
          proof (cases "m = node")
            case True then show ?thesis using notRoot n(1) by auto
          next
            case False
            then have "m \<in> seen - {topN} - set wl" using m ms wl by auto
            then have "\<not> noUses g m \<and> getParent ` set (uses g m) \<subseteq> seen"
              using inv by (simp add: loopInv_def)
            then show ?thesis using n(1) by blast
          qed
        qed
      qed
      have sub: "?P - seen \<subseteq> U - seen" using par[of node] by auto
      have c: "card (U - seen') = card (U - seen) - card (?P - seen)"
      proof -
        have "U - seen' = (U - seen) - (?P - seen)" using n(1) by auto
        moreover have "finite (?P - seen)" by simp
        ultimately show ?thesis using sub by (simp add: card_Diff_subset)
      qed
      have le: "card (?P - seen) \<le> card (U - seen)"
        using sub fin by (simp add: card_mono)
      have len: "length wl' = length wl0 + card (?P - seen)"
        using n(2,3,4) distinct_card[of new] by simp
      have dec: "2 * card (U - seen') + length wl' < 2 * card (U - seen) + length wl"
        using c le len wl by simp
      show ?thesis using less.hyps[OF dec inv'] unfold by simp
    qed
  qed
qed

lemma upwardPath_snoc:
  "upwardPath g (p @ [x]) \<longleftrightarrow> p = [] \<or> (upwardPath g p \<and> x \<in> getParent ` set (uses g (last p)))"
proof (induction p rule: upwardPath.induct)
  case (1 g)
  then show ?case by simp
next
  case (2 g m)
  then show ?case by simp
next
  case (3 g m m' ms)
  then show ?case by auto
qed

lemma climbs_has_path:
  assumes "m \<in> climbs g topN S"
  shows "\<exists>path. upwardPath g path \<and> hd path \<in> S \<and> last path = m \<and> topN \<notin> set path"
  using assms
proof (induction rule: climbs.induct)
  case (start m)
  then show ?case by (intro exI[of _ "[m]"]) simp
next
  case (step m u)
  then obtain path where p: "upwardPath g path" "hd path \<in> S" "last path = m" "topN \<notin> set path"
    by blast
  have ne: "path \<noteq> []" using p(1) by (cases path) auto
  have "upwardPath g (path @ [getParent u])"
    using p(1,3) step.hyps(2) by (simp add: upwardPath_snoc)
  moreover have "hd (path @ [getParent u]) \<in> S" using p(2) ne by simp
  moreover have "topN \<notin> set (path @ [getParent u])" using p(4) step.hyps(3) by simp
  ultimately show ?case by (intro exI[of _ "path @ [getParent u]"]) simp
qed

lemma path_in_climbs:
  "upwardPath g (m # ms) \<Longrightarrow> m \<in> climbs g topN S \<Longrightarrow> topN \<notin> set ms \<Longrightarrow>
   last (m # ms) \<in> climbs g topN S"
proof (induction ms arbitrary: m)
  case Nil
  then show ?case by simp
next
  case (Cons m' ms)
  then obtain u where u: "u \<in> set (uses g m)" "m' = getParent u" by auto
  have "m' \<in> climbs g topN S"
    using climbs.step[OF Cons.prems(2) u(1)] u(2) Cons.prems(3) by auto
  then show ?case using Cons by simp
qed

lemma dominated_iff_climbs:
  "(\<forall>path. upwardPath g path \<and> hd path \<in> S \<and> noUses g (last path) \<longrightarrow> topN \<in> set path)
   \<longleftrightarrow> (\<forall>m \<in> climbs g topN S. \<not> noUses g m)"
proof
  assume dom: "\<forall>path. upwardPath g path \<and> hd path \<in> S \<and> noUses g (last path) \<longrightarrow> topN \<in> set path"
  show "\<forall>m \<in> climbs g topN S. \<not> noUses g m"
  proof
    fix m assume "m \<in> climbs g topN S"
    from climbs_has_path[OF this] obtain path where
      "upwardPath g path" "hd path \<in> S" "last path = m" "topN \<notin> set path" by blast
    then show "\<not> noUses g m" using dom by blast
  qed
next
  assume cl: "\<forall>m \<in> climbs g topN S. \<not> noUses g m"
  show "\<forall>path. upwardPath g path \<and> hd path \<in> S \<and> noUses g (last path) \<longrightarrow> topN \<in> set path"
  proof (intro allI impI, elim conjE, rule ccontr)
    fix path assume p: "upwardPath g path" "hd path \<in> S" "noUses g (last path)" "topN \<notin> set path"
    then obtain m ms where path: "path = m # ms" by (cases path) auto
    have "m \<in> climbs g topN S" using p(2,4) path by (auto intro: climbs.start)
    then have "last path \<in> climbs g topN S"
      using path_in_climbs[of g m ms topN S] p(1,4) path by simp
    then show False using cl p(3) by blast
  qed
qed

lemma parents_finite:
  assumes "finite {m. uses g m \<noteq> []}"
  shows "finite (\<Union>m \<in> {m. uses g m \<noteq> []}. getParent ` set (uses g m))"
  using assms by simp

lemma allUnder_climbs:
  assumes "finite {m. uses g m \<noteq> []}"
  shows "allUnder g nodes topN =
     Some (Inr (\<forall>m \<in> climbs g topN (getParent ` set nodes). \<not> noUses g m))"
proof -
  let ?U = "\<Union>m \<in> {m. uses g m \<noteq> []}. getParent ` set (uses g m)"
  let ?S = "getParent ` set nodes"
  have par: "getParent ` set (uses g m) \<subseteq> ?U" for m by (cases "uses g m = []") auto
  obtain seen wl where f: "foldl markSeen ({topN}, []) (map getParent nodes) = (seen, wl)"
    by (cases "foldl markSeen ({topN}, []) (map getParent nodes)") auto
  from foldl_markSeen[OF f] obtain new where
    n: "seen = {topN} \<union> ?S" "wl = new" "set new = ?S - {topN}" by auto
  have inv: "loopInv g topN ?S seen wl"
    using n by (auto simp: loopInv_def intro: climbs.start)
  show ?thesis
    using allUnderLoop_correct[OF parents_finite[OF assms] par inv] f
    by (simp add: allUnder_def)
qed

text \<open>
  Claim C5. On a graph in which finitely many modules have uses, \<open>allUnder nodes top\<close>
  returns, and its result is true exactly when every upward path that starts at the
  parent module of a given node and ends in a module without uses contains \<open>top\<close>. So it
  is false exactly when some upward traversal reaches a module without uses and has not
  passed through \<open>top\<close>. The assertion \<open>node != top\<close> never fails.
\<close>

theorem allUnder_dominance:
  assumes "finite {m. uses g m \<noteq> []}"
  shows "allUnder g nodes topN =
     Some (Inr (\<forall>n \<in> set nodes. \<forall>path.
        upwardPath g path \<and> hd path = getParent n \<and> noUses g (last path) \<longrightarrow> topN \<in> set path))"
proof -
  have "(\<forall>n \<in> set nodes. \<forall>path.
        upwardPath g path \<and> hd path = getParent n \<and> noUses g (last path) \<longrightarrow> topN \<in> set path)
     \<longleftrightarrow> (\<forall>path. upwardPath g path \<and> hd path \<in> getParent ` set nodes \<and> noUses g (last path)
            \<longrightarrow> topN \<in> set path)"
    by auto
  then show ?thesis
    using allUnder_climbs[OF assms, of nodes topN]
      dominated_iff_climbs[of g "getParent ` set nodes" topN] by simp
qed

lemma chainGraph_finite: "finite {m. uses chainGraph m \<noteq> []}"
proof -
  have "{m. uses chainGraph m \<noteq> []} \<subseteq> {1, 2, 3, 5}"
    by (auto simp: chainGraph_def split: if_splits)
  then show ?thesis by (rule finite_subset) simp
qed

theorem allUnder_dominance_witness:
  "finite {m. uses chainGraph m \<noteq> []} \<and>
   allUnder chainGraph [\<lparr>getInstance = 20, getParent = 1, getTarget = 2\<rparr>] 3 = Some (Inr False) \<and>
   \<not> (\<forall>n \<in> set [\<lparr>getInstance = 20, getParent = 1, getTarget = 2\<rparr>]. \<forall>path.
        upwardPath chainGraph path \<and> hd path = getParent n \<and> noUses chainGraph (last path)
        \<longrightarrow> 3 \<in> set path)"
proof -
  let ?n = "\<lparr>getInstance = 20, getParent = 1, getTarget = 2\<rparr>"
  have s0: "allUnder chainGraph [?n] 3 = allUnderLoop chainGraph 3 {1, 3} [1]"
    by (simp add: allUnder_def insert_commute)
  have s1: "allUnderLoop chainGraph 3 {1, 3} [1] = allUnderLoop chainGraph 3 {0, 1, 3} [0]"
    by (subst allUnderLoop.simps) (simp add: chainGraph_def noUses_def Let_def)
  have s2: "allUnderLoop chainGraph 3 {0, 1, 3} [0] = Some (Inr False)"
    by (subst allUnderLoop.simps) (simp add: chainGraph_def noUses_def Let_def)
  have run: "allUnder chainGraph [?n] 3 = Some (Inr False)"
    using s0 s1 s2 by simp
  show ?thesis
    using chainGraph_finite run allUnder_dominance[OF chainGraph_finite, of "[?n]" 3]
    by simp
qed

lemma foldl_markSeen_top:
  assumes "topN \<in> seen"
  shows "topN \<in> fst (foldl markSeen (seen, wl) ms)"
proof -
  obtain seen' wl' where f: "foldl markSeen (seen, wl) ms = (seen', wl')"
    by (cases "foldl markSeen (seen, wl) ms") auto
  from foldl_markSeen[OF f] assms f show ?thesis by auto
qed

text \<open>
  Claim C10. With no nodes \<open>allUnder\<close> returns true. A node whose parent module is \<open>top\<close>
  adds nothing to the traversal: the call with it and the call without it are the same
  computation; and when every given node lies directly in \<open>top\<close> the result is true.
\<close>

theorem allUnder_nodes_directly_under_top:
  "allUnder g [] topN = Some (Inr True) \<and>
   (getParent n = topN \<longrightarrow> allUnder g (ns1 @ n # ns2) topN = allUnder g (ns1 @ ns2) topN) \<and>
   ((\<forall>n \<in> set nodes. getParent n = topN) \<longrightarrow> allUnder g nodes topN = Some (Inr True))"
proof (intro conjI impI)
  show "allUnder g [] topN = Some (Inr True)"
    by (simp add: allUnder_def allUnderLoop.simps)
next
  assume n: "getParent n = topN"
  obtain seen wl where f: "foldl markSeen ({topN}, []) (map getParent ns1) = (seen, wl)"
    by (cases "foldl markSeen ({topN}, []) (map getParent ns1)") auto
  have "topN \<in> seen" using foldl_markSeen_top[of topN "{topN}" "[]" "map getParent ns1"] f by simp
  then have "markSeen (seen, wl) (getParent n) = (seen, wl)" using n by simp
  then show "allUnder g (ns1 @ n # ns2) topN = allUnder g (ns1 @ ns2) topN"
    using f by (simp add: allUnder_def)
next
  assume all: "\<forall>n \<in> set nodes. getParent n = topN"
  obtain seen wl where f: "foldl markSeen ({topN}, []) (map getParent nodes) = (seen, wl)"
    by (cases "foldl markSeen ({topN}, []) (map getParent nodes)") auto
  from foldl_markSeen[OF f] obtain new where
    n: "wl = [] @ new" "set new = set (map getParent nodes) - {topN}" by auto
  have "set new = {}" using n(2) all by auto
  then have "wl = []" using n(1) by simp
  then show "allUnder g nodes topN = Some (Inr True)"
    using f by (simp add: allUnder_def allUnderLoop.simps)
qed

theorem allUnder_nodes_directly_under_top_witness:
  "getParent \<lparr>getInstance = 10, getParent = 0, getTarget = 1\<rparr> = 0 \<and>
   allUnder chainGraph
     [\<lparr>getInstance = 20, getParent = 1, getTarget = 2\<rparr>,
      \<lparr>getInstance = 10, getParent = 0, getTarget = 1\<rparr>] 0 =
   allUnder chainGraph [\<lparr>getInstance = 20, getParent = 1, getTarget = 2\<rparr>] 0 \<and>
   allUnder chainGraph
     [\<lparr>getInstance = 10, getParent = 0, getTarget = 1\<rparr>,
      \<lparr>getInstance = 30, getParent = 0, getTarget = 3\<rparr>] 0 = Some (Inr True)"
proof -
  let ?a = "\<lparr>getInstance = 10, getParent = 0, getTarget = 1\<rparr>"
  let ?b = "\<lparr>getInstance = 20, getParent = 1, getTarget = 2\<rparr>"
  let ?c = "\<lparr>getInstance = 30, getParent = 0, getTarget = 3\<rparr>"
  have one: "allUnder chainGraph ([?b] @ ?a # []) 0 = allUnder chainGraph ([?b] @ []) 0"
    using allUnder_nodes_directly_under_top[of chainGraph 0 ?a "[?b]" "[]" "[]"] by simp
  have two: "allUnder chainGraph [?a, ?c] 0 = Some (Inr True)"
    using allUnder_nodes_directly_under_top[of chainGraph 0 ?a "[]" "[]" "[?a, ?c]"] by simp
  show ?thesis using one two by simp
qed

section \<open>Resolving a wiring problem\<close>

text \<open>
  Every absolute path of a module other than the root is non-empty and its last instance
  references that module: the chain that remains of the source path after the common
  prefix ends in the source module itself.
\<close>

lemma absolute_path_ends_in_module:
  assumes "recordsWellFormed c g"
  shows "p \<in> set (pathsAt n g m) \<Longrightarrow> m \<noteq> topLevelNode g \<Longrightarrow>
         p \<noteq> [] \<and> referencedModule c (last p) = m"
proof (cases n)
  case 0
  assume "p \<in> set (pathsAt n g m)" "m \<noteq> topLevelNode g"
  then show ?thesis using 0 by simp
next
  case (Suc k)
  assume "p \<in> set (pathsAt n g m)" "m \<noteq> topLevelNode g"
  then obtain u q where "u \<in> set (uses g m)" "p = q @ [getInstance u]"
    using Suc by auto
  then show ?thesis using assms by (auto simp: recordsWellFormed_def)
qed

lemma getAbsolutePaths_path_ends_in_module:
  assumes "acyclicBy g rank" "recordsWellFormed c g" "instanceGraph C = g"
    and "cacheConsistent (\<lambda>m. pathsAt (Suc (rank m)) g m) C"
    and "rank m < n" "m \<noteq> topLevelNode g"
  shows "\<exists>ps C'. getAbsolutePaths n C m = Some (ps, C') \<and>
     (\<forall>p \<in> set ps. pathElems (allocator C') p \<noteq> [] \<and>
        referencedModule c (last (pathElems (allocator C') p)) = m)"
proof -
  obtain ps C' where r: "getAbsolutePaths n C m = Some (ps, C')"
    and e: "map (pathElems (allocator C')) ps = pathsAt (Suc (rank m)) g m"
    using getAbsolutePaths_main[OF assms(1) refl assms(3,4,5)]
    by (auto simp: pathsResult_def)
  have "pathElems (allocator C') p \<in> set (pathsAt (Suc (rank m)) g m)" if "p \<in> set ps" for p
    using e that by (metis image_eqI list.set_map)
  then show ?thesis
    using r absolute_path_ends_in_module[OF assms(2), of _ "Suc (rank m)" m] assms(6) by blast
qed

lemma lcaLoop_sinks_prefix:
  "prefix sinks sources \<Longrightarrow> \<forall>s \<in> set sinks. isFModuleOp c (referencedModule c s) \<Longrightarrow>
   lcaLoop c lca sources sinks = Inl IndexOutOfBounds"
proof (induction sinks arbitrary: sources lca)
  case Nil
  then show ?case by (cases sources) auto
next
  case (Cons k sinks)
  then obtain rest where s: "sources = k # rest" "prefix sinks rest"
    by (cases sources) auto
  show ?case
    using Cons.IH[OF s(2), of "referencedModule c k"] Cons.prems(2) s(1)
    by (simp add: castFModuleOp_def)
qed

lemma lcaLoop_common_prefix:
  "\<not> prefix sinks sources \<Longrightarrow>
   \<forall>s \<in> set (longest_common_prefix sources sinks). isFModuleOp c (referencedModule c s) \<Longrightarrow>
   lcaLoop c lca sources sinks =
     Inr (if longest_common_prefix sources sinks = [] then lca
          else referencedModule c (last (longest_common_prefix sources sinks)),
          drop (length (longest_common_prefix sources sinks)) sources,
          drop (length (longest_common_prefix sources sinks)) sinks)"
proof (induction sources arbitrary: sinks lca)
  case Nil
  then show ?case by (cases sinks) auto
next
  case (Cons x xs)
  show ?case
  proof (cases sinks)
    case Nil
    then show ?thesis using Cons.prems(1) by simp
  next
    case sinks: (Cons y ys)
    show ?thesis
    proof (cases "x = y")
      case True
      have np: "\<not> prefix ys xs" using Cons.prems(1) sinks True by simp
      have fm: "isFModuleOp c (referencedModule c x)" using Cons.prems(2) sinks True by simp
      have rest: "\<forall>s \<in> set (longest_common_prefix xs ys). isFModuleOp c (referencedModule c s)"
        using Cons.prems(2) sinks True by simp
      show ?thesis
        using Cons.IH[OF np rest, of "referencedModule c x"] True fm sinks
        by (simp add: castFModuleOp_def)
    next
      case False
      then show ?thesis using sinks by simp
    qed
  qed
qed

text \<open>
  Claim C3. The resolver is to consume the common prefix of the two paths and to return
  the module referenced by the last shared instance (the root when there is none) together
  with the remaining suffixes, also when one path is a prefix of the other or a path is
  empty. The two lemmas above show what the loop does: it returns exactly that when the
  sink path is not a prefix of the source path, and it reads \<open>sources[0]\<close> or \<open>sinks[0]\<close>
  of an empty array whenever the sink path is a prefix of the source path. The
  evaluation below runs the loop there: the sink in an ancestor of the source module, in
  the root, in the same module as the source, both in the root; and the whole step for
  a source in module 2 and a sink in module 1 of the small design, built with assertions
  and without.
\<close>

theorem computeLCA_reads_past_exhausted_sink_path:
  "computeLCA chainCircuit chainGraph [10, 20] [10] = Inl IndexOutOfBounds \<and>
   computeLCA chainCircuit chainGraph [10] [] = Inl IndexOutOfBounds \<and>
   computeLCA chainCircuit chainGraph [10] [10] = Inl IndexOutOfBounds \<and>
   computeLCA chainCircuit chainGraph [] [] = Inl IndexOutOfBounds \<and>
   wireProblem True 5 chainNewName chainCircuit chainState 0 (tapProblem 2 1) = Some (Inl IndexOutOfBounds) \<and>
   wireProblem False 5 chainNewName chainCircuit chainState 0 (tapProblem 2 1) = Some (Inl IndexOutOfBounds)"
proof -
  have a: "computeLCA chainCircuit chainGraph [10, 20] [10] = Inl IndexOutOfBounds"
    by (simp add: computeLCA_def castFModuleOp_def chainCircuit_def)
  have b: "computeLCA chainCircuit chainGraph [10] [] = Inl IndexOutOfBounds"
    by (simp add: computeLCA_def castFModuleOp_def chainCircuit_def)
  have c: "computeLCA chainCircuit chainGraph [10] [10] = Inl IndexOutOfBounds"
    by (simp add: computeLCA_def castFModuleOp_def chainCircuit_def)
  have d: "computeLCA chainCircuit chainGraph [] [] = Inl IndexOutOfBounds"
    by (simp add: computeLCA_def castFModuleOp_def chainCircuit_def)
  have e: "wireProblem True 5 chainNewName chainCircuit chainState 0 (tapProblem 2 1) = Some (Inl IndexOutOfBounds)"
    by (simp add: wireProblem_def tapProblem_def chainState_def Let_def eval_nat_numeral
        newInstancePathCache_def chainGraph_def cacheInsert_def appendInstance_def
        computeLCA_def castFModuleOp_def chainCircuit_def)
  have f: "wireProblem False 5 chainNewName chainCircuit chainState 0 (tapProblem 2 1) = Some (Inl IndexOutOfBounds)"
    by (simp add: wireProblem_def tapProblem_def chainState_def Let_def eval_nat_numeral
        newInstancePathCache_def chainGraph_def cacheInsert_def appendInstance_def
        computeLCA_def castFModuleOp_def chainCircuit_def)
  show ?thesis using a b c d e f by simp
qed

text \<open>
  The number of paths is checked by the two assertions only. Built with assertions, the
  step stops at the one that fails, before the loop and before any port is planned.
  Built without, the step takes the first source path and the first sink path.
\<close>

lemma wireProblem_stops_at_failed_assertion:
  assumes "definingModule (source problem) = Some sourceModule"
    and "definingModule (sink problem) = Some sinkModule"
    and "getAbsolutePaths fuel (pathCache st) sourceModule = Some (sourcePaths, C1)"
  shows "(length sourcePaths \<noteq> 1 \<longrightarrow>
            wireProblem True fuel newName c st index problem = Some (Inl AssertionFailure)) \<and>
         (\<forall>sinkPaths C2. getAbsolutePaths fuel C1 sinkModule = Some (sinkPaths, C2) \<longrightarrow>
            length sinkPaths \<noteq> 1 \<longrightarrow>
            wireProblem True fuel newName c st index problem = Some (Inl AssertionFailure))"
  using assms by (auto simp: wireProblem_def Let_def)

lemma wireProblem_without_assertions_takes_first_paths:
  assumes "definingModule (source problem) = Some sourceModule"
    and "definingModule (sink problem) = Some sinkModule"
    and "getAbsolutePaths fuel (pathCache st) sourceModule = Some (p # ps, C1)"
    and "getAbsolutePaths fuel C1 sinkModule = Some (q # qs, C2)"
  shows "wireProblem False fuel newName c st index problem =
     (case computeLCA c (instanceGraph C2)
             (pathElems (allocator C2) p) (pathElems (allocator C2) q) of
        Inl e \<Rightarrow> Some (Inl e)
      | Inr (lca, sources, sinks) \<Rightarrow>
          Some (planPorts newName c problem index sources sinks
                  (st\<lparr>pathCache := C2,
                      moduleModifications :=
                        setConnection
                          (setConnection (moduleModifications st) sourceModule index (source problem))
                          sinkModule index (sink problem)\<rparr>)))"
  using assms by (simp add: wireProblem_def Let_def)

text \<open>
  Claim C4. A wiring problem whose source module or sink module has no absolute path or
  more than one is to fail the pass with an error instead of being wired. The code has
  the two assertions and no error: for a source in module 3 of the small design, which
  the root instantiates twice, and a sink in module 2, the program built with assertions
  stops at the first assertion, and the program built without assertions wires the
  problem along the first path of module 3, planning an output port for module 3 and
  input ports for modules 1 and 2. For a sink in module 4, which nothing instantiates,
  the program built without assertions reads the first element of an empty array.
\<close>

theorem wireProblem_wires_source_with_two_paths:
  "absPaths chainGraph (\<lambda>m. m) 3 = [[30], [31]] \<and>
   absPaths chainGraph (\<lambda>m. m) 2 = [[10, 20]] \<and>
   absPaths chainGraph (\<lambda>m. m) 4 = [] \<and>
   wireProblem True 5 chainNewName chainCircuit chainState 0 (tapProblem 3 2) =
     Some (Inl AssertionFailure) \<and>
   (\<exists>st'. wireProblem False 5 chainNewName chainCircuit chainState 0 (tapProblem 3 2) =
             Some (Inr st') \<and>
      portsToAdd (modsAt (moduleModifications st') 3) =
        [(\<lparr>portName = ''tap'', portType = RefType 8, portDirection = Out\<rparr>, 0)] \<and>
      portsToAdd (modsAt (moduleModifications st') 1) =
        [(\<lparr>portName = ''tap'', portType = RefType 8, portDirection = In\<rparr>, 0)] \<and>
      portsToAdd (modsAt (moduleModifications st') 2) =
        [(\<lparr>portName = ''tap'', portType = RefType 8, portDirection = In\<rparr>, 0)]) \<and>
   wireProblem True 5 chainNewName chainCircuit chainState 0 (tapProblem 2 4) =
     Some (Inl AssertionFailure) \<and>
   wireProblem False 5 chainNewName chainCircuit chainState 0 (tapProblem 2 4) =
     Some (Inl IndexOutOfBounds)"
proof -
  have a3: "absPaths chainGraph (\<lambda>m. m) 3 = [[30], [31]]"
    by (simp add: absPaths_def chainGraph_def eval_nat_numeral)
  have a2: "absPaths chainGraph (\<lambda>m. m) 2 = [[10, 20]]"
    by (simp add: absPaths_def chainGraph_def eval_nat_numeral)
  have a4: "absPaths chainGraph (\<lambda>m. m) 4 = []"
    by (simp add: absPaths_def chainGraph_def eval_nat_numeral)
  have one: "wireProblem True 5 chainNewName chainCircuit chainState 0 (tapProblem 3 2) =
     Some (Inl AssertionFailure)"
    by (simp add: wireProblem_def tapProblem_def chainState_def Let_def eval_nat_numeral
        newInstancePathCache_def chainGraph_def cacheInsert_def appendInstance_def)
  have two: "\<exists>st'. wireProblem False 5 chainNewName chainCircuit chainState 0 (tapProblem 3 2) =
             Some (Inr st') \<and>
      portsToAdd (modsAt (moduleModifications st') 3) =
        [(\<lparr>portName = ''tap'', portType = RefType 8, portDirection = Out\<rparr>, 0)] \<and>
      portsToAdd (modsAt (moduleModifications st') 1) =
        [(\<lparr>portName = ''tap'', portType = RefType 8, portDirection = In\<rparr>, 0)] \<and>
      portsToAdd (modsAt (moduleModifications st') 2) =
        [(\<lparr>portName = ''tap'', portType = RefType 8, portDirection = In\<rparr>, 0)]"
    by (simp add: wireProblem_def tapProblem_def chainState_def Let_def eval_nat_numeral
        newInstancePathCache_def chainGraph_def cacheInsert_def appendInstance_def
        computeLCA_def castFModuleOp_def chainCircuit_def planPorts_def portTypeFor_def
        setConnection_def modsAt_def noModifications_def)
  have three: "wireProblem True 5 chainNewName chainCircuit chainState 0 (tapProblem 2 4) =
     Some (Inl AssertionFailure)"
    by (simp add: wireProblem_def tapProblem_def chainState_def Let_def eval_nat_numeral
        newInstancePathCache_def chainGraph_def cacheInsert_def appendInstance_def)
  have four: "wireProblem False 5 chainNewName chainCircuit chainState 0 (tapProblem 2 4) =
     Some (Inl IndexOutOfBounds)"
    by (simp add: wireProblem_def tapProblem_def chainState_def Let_def eval_nat_numeral
        newInstancePathCache_def chainGraph_def cacheInsert_def appendInstance_def)
  show ?thesis using a3 a2 a4 one two three four by (intro conjI)
qed

lemma recordPorts_spec:
  assumes "distinct (map (referencedModule c) insts)"
    and "\<forall>i \<in> set insts. isFModuleOp c (referencedModule c i)"
    and "portTypeFor problem = Inr tpe"
  shows "\<exists>st'. recordPorts newName c problem index dir insts st = Inr st' \<and>
     pathCache st' = pathCache st \<and>
     (\<forall>m. moduleModifications st' m =
        (if m \<in> referencedModule c ` set insts
         then Some (withPort newName problem index tpe dir st m)
         else moduleModifications st m)) \<and>
     (\<forall>m. namespaces st' m =
        (if m \<in> referencedModule c ` set insts
         then snd (newName (namespaces st m) (newNameHint problem))
         else namespaces st m))"
  using assms(1,2)
proof (induction insts arbitrary: st)
  case Nil
  then show ?case by simp
next
  case (Cons i insts)
  let ?m = "referencedModule c i"
  obtain nm ns' where nn: "newName (namespaces st ?m) (newNameHint problem) = (nm, ns')"
    by (cases "newName (namespaces st ?m) (newNameHint problem)") auto
  let ?st1 = "st\<lparr>moduleModifications := (moduleModifications st)(?m \<mapsto>
                  withPort newName problem index tpe dir st ?m),
                namespaces := (namespaces st)(?m := ns')\<rparr>"
  have step: "recordPorts newName c problem index dir (i # insts) st =
              recordPorts newName c problem index dir insts ?st1"
    using Cons.prems(2) assms(3) nn
    by (simp add: castFModuleOp_def Let_def withPort_def)
  have d: "distinct (map (referencedModule c) insts)" and notin: "?m \<notin> referencedModule c ` set insts"
    using Cons.prems(1) by auto
  have f: "\<forall>i \<in> set insts. isFModuleOp c (referencedModule c i)" using Cons.prems(2) by simp
  obtain st' where IH: "recordPorts newName c problem index dir insts ?st1 = Inr st'"
    "pathCache st' = pathCache ?st1"
    "\<And>m. moduleModifications st' m =
        (if m \<in> referencedModule c ` set insts
         then Some (withPort newName problem index tpe dir ?st1 m)
         else moduleModifications ?st1 m)"
    "\<And>m. namespaces st' m =
        (if m \<in> referencedModule c ` set insts
         then snd (newName (namespaces ?st1 m) (newNameHint problem))
         else namespaces ?st1 m)"
    using Cons.IH[OF d f, of ?st1] by blast
  have same: "withPort newName problem index tpe dir ?st1 m = withPort newName problem index tpe dir st m"
    if "m \<noteq> ?m" for m
    using that by (simp add: withPort_def modsAt_def)
  have mm: "moduleModifications st' m =
        (if m \<in> referencedModule c ` set (i # insts)
         then Some (withPort newName problem index tpe dir st m)
         else moduleModifications st m)" for m
  proof (cases "m = ?m")
    case True
    then show ?thesis using IH(3)[of m] notin by simp
  next
    case False
    then show ?thesis using IH(3)[of m] same[OF False] by simp
  qed
  have ns: "namespaces st' m =
        (if m \<in> referencedModule c ` set (i # insts)
         then snd (newName (namespaces st m) (newNameHint problem))
         else namespaces st m)" for m
  proof (cases "m = ?m")
    case True
    then show ?thesis using IH(4)[of m] notin nn by simp
  next
    case False
    then show ?thesis using IH(4)[of m] by simp
  qed
  show ?case using step IH(1,2) mm ns by simp
qed

lemma planPorts_spec:
  assumes "distinct (map (referencedModule c) (sources @ sinks))"
    and "\<forall>i \<in> set (sources @ sinks). isFModuleOp c (referencedModule c i)"
    and "isRefType problem \<longrightarrow> (\<exists>b. valueType (source problem) = BaseType b)"
  shows "\<exists>st' tpe. planPorts newName c problem index sources sinks st = Inr st' \<and>
     (isRefType problem \<longrightarrow> (\<exists>b. valueType (source problem) = BaseType b \<and> tpe = RefType b)) \<and>
     (\<not> isRefType problem \<longrightarrow> tpe = valueType (source problem)) \<and>
     (\<forall>i \<in> set sources.
        portsToAdd (modsAt (moduleModifications st') (referencedModule c i)) =
        portsToAdd (modsAt (moduleModifications st) (referencedModule c i)) @
          [(\<lparr>portName = fst (newName (namespaces st (referencedModule c i)) (newNameHint problem)),
             portType = tpe, portDirection = Out\<rparr>, index)]) \<and>
     (\<forall>i \<in> set sinks.
        portsToAdd (modsAt (moduleModifications st') (referencedModule c i)) =
        portsToAdd (modsAt (moduleModifications st) (referencedModule c i)) @
          [(\<lparr>portName = fst (newName (namespaces st (referencedModule c i)) (newNameHint problem)),
             portType = tpe, portDirection = In\<rparr>, index)]) \<and>
     (\<forall>m. m \<notin> referencedModule c ` set (sources @ sinks) \<longrightarrow>
        moduleModifications st' m = moduleModifications st m)"
proof -
  define tpe where "tpe = (if isRefType problem
      then (case valueType (source problem) of BaseType b \<Rightarrow> RefType b | RefType r \<Rightarrow> RefType r)
      else valueType (source problem))"
  have tpe: "portTypeFor problem = Inr tpe"
    using assms(3) by (auto simp: portTypeFor_def tpe_def)
  have ref: "isRefType problem \<longrightarrow> (\<exists>b. valueType (source problem) = BaseType b \<and> tpe = RefType b)"
    using assms(3) by (auto simp: tpe_def)
  have nref: "\<not> isRefType problem \<longrightarrow> tpe = valueType (source problem)"
    by (simp add: tpe_def)
  have d1: "distinct (map (referencedModule c) sources)"
    and d2: "distinct (map (referencedModule c) sinks)"
    and disj: "referencedModule c ` set sources \<inter> referencedModule c ` set sinks = {}"
    using assms(1) by auto
  have f1: "\<forall>i \<in> set sources. isFModuleOp c (referencedModule c i)"
    and f2: "\<forall>i \<in> set sinks. isFModuleOp c (referencedModule c i)"
    using assms(2) by auto
  obtain st1 where r1: "recordPorts newName c problem index Out sources st = Inr st1"
    and m1: "\<And>m. moduleModifications st1 m =
        (if m \<in> referencedModule c ` set sources
         then Some (withPort newName problem index tpe Out st m)
         else moduleModifications st m)"
    and n1: "\<And>m. namespaces st1 m =
        (if m \<in> referencedModule c ` set sources
         then snd (newName (namespaces st m) (newNameHint problem))
         else namespaces st m)"
    using recordPorts_spec[OF d1 f1 tpe, of newName index Out st] by blast
  obtain st2 where r2: "recordPorts newName c problem index In sinks st1 = Inr st2"
    and m2: "\<And>m. moduleModifications st2 m =
        (if m \<in> referencedModule c ` set sinks
         then Some (withPort newName problem index tpe In st1 m)
         else moduleModifications st1 m)"
    using recordPorts_spec[OF d2 f2 tpe, of newName index In st1] by blast
  have run: "planPorts newName c problem index sources sinks st = Inr st2"
    using r1 r2 by (simp add: planPorts_def)
  have src: "portsToAdd (modsAt (moduleModifications st2) (referencedModule c i)) =
        portsToAdd (modsAt (moduleModifications st) (referencedModule c i)) @
          [(\<lparr>portName = fst (newName (namespaces st (referencedModule c i)) (newNameHint problem)),
             portType = tpe, portDirection = Out\<rparr>, index)]"
    if "i \<in> set sources" for i
  proof -
    have "referencedModule c i \<notin> referencedModule c ` set sinks" using that disj by auto
    then show ?thesis using m2[of "referencedModule c i"] m1[of "referencedModule c i"] that
      by (simp add: modsAt_def withPort_def)
  qed
  have snk: "portsToAdd (modsAt (moduleModifications st2) (referencedModule c i)) =
        portsToAdd (modsAt (moduleModifications st) (referencedModule c i)) @
          [(\<lparr>portName = fst (newName (namespaces st (referencedModule c i)) (newNameHint problem)),
             portType = tpe, portDirection = In\<rparr>, index)]"
    if "i \<in> set sinks" for i
  proof -
    have "referencedModule c i \<notin> referencedModule c ` set sources" using that disj by auto
    then show ?thesis
      using m2[of "referencedModule c i"] m1[of "referencedModule c i"]
        n1[of "referencedModule c i"] that
      by (simp add: modsAt_def withPort_def)
  qed
  have other: "moduleModifications st2 m = moduleModifications st m"
    if "m \<notin> referencedModule c ` set (sources @ sinks)" for m
    using that m1[of m] m2[of m] by auto
  show ?thesis
    using run ref nref src snk other by blast
qed

text \<open>
  The structure of the path sets: a prefix of an absolute path is an absolute path of the
  module it ends in, the prefix of an absolute path can be exchanged for another path of
  the same module, and the modules along a path are pairwise different. So when the
  source module and the sink module have one path each, the instances that remain after
  the common prefix reference pairwise different modules.
\<close>

lemma absPaths_root: "absPaths g rank (topLevelNode g) = [[]]"
  by (simp add: absPaths_def)

lemma absPaths_mem:
  assumes "acyclicBy g rank" "m \<noteq> topLevelNode g"
  shows "p \<in> set (absPaths g rank m) \<longleftrightarrow>
         (\<exists>u \<in> set (uses g m). \<exists>q \<in> set (absPaths g rank (getParent u)). p = q @ [getInstance u])"
proof -
  have "absPaths g rank m =
      concat (map (\<lambda>u. map (\<lambda>p. p @ [getInstance u]) (absPaths g rank (getParent u))) (uses g m))"
    using pathsAt_unfold[OF assms] unfolding absPaths_def .
  then show ?thesis by auto
qed

lemma absPaths_empty_path:
  assumes "acyclicBy g rank" "[] \<in> set (absPaths g rank m)"
  shows "m = topLevelNode g"
  using assms absPaths_mem[OF assms(1), of m "[]"] by auto

lemma absPaths_last:
  assumes "acyclicBy g rank" "recordsWellFormed c g" "q @ [i] \<in> set (absPaths g rank m)"
  shows "referencedModule c i = m"
proof -
  have "m \<noteq> topLevelNode g" using assms(3) absPaths_root[of g rank] by auto
  then show ?thesis
    using assms absPaths_mem[OF assms(1), of m "q @ [i]"] by (auto simp: recordsWellFormed_def)
qed

lemma absPaths_prefix_closed:
  assumes "acyclicBy g rank" "recordsWellFormed c g"
  shows "q @ [i] @ r \<in> set (absPaths g rank m) \<Longrightarrow>
         q @ [i] \<in> set (absPaths g rank (referencedModule c i))"
proof (induction r arbitrary: m rule: rev_induct)
  case Nil
  then show ?case using absPaths_last[OF assms, of q i m] by simp
next
  case (snoc l r)
  have nt: "m \<noteq> topLevelNode g" using snoc.prems absPaths_root[of g rank] by auto
  obtain u where "u \<in> set (uses g m)" "q @ [i] @ r \<in> set (absPaths g rank (getParent u))"
    using snoc.prems absPaths_mem[OF assms(1) nt, of "q @ [i] @ r @ [l]"] by auto
  then show ?case using snoc.IH by blast
qed

lemma absPaths_same_end:
  assumes "acyclicBy g rank" "recordsWellFormed c g"
    "p \<in> set (absPaths g rank m)" "p \<in> set (absPaths g rank m')"
  shows "m = m'"
proof (cases p rule: rev_cases)
  case Nil
  then show ?thesis using assms absPaths_empty_path[OF assms(1)] by metis
next
  case (snoc q i)
  then show ?thesis using assms absPaths_last[OF assms(1,2)] by metis
qed

lemma absPaths_swap_prefix:
  assumes "acyclicBy g rank" "recordsWellFormed c g"
    "q0 \<in> set (absPaths g rank x)" "q \<in> set (absPaths g rank x)"
  shows "q0 @ r \<in> set (absPaths g rank m) \<Longrightarrow> q @ r \<in> set (absPaths g rank m)"
proof (induction r arbitrary: m rule: rev_induct)
  case Nil
  then have "m = x" using absPaths_same_end[OF assms(1,2), of q0 m x] assms(3) by simp
  then show ?case using assms(4) by simp
next
  case (snoc l r)
  have nt: "m \<noteq> topLevelNode g" using snoc.prems absPaths_root[of g rank] by auto
  obtain u where u: "u \<in> set (uses g m)" "getInstance u = l"
    "q0 @ r \<in> set (absPaths g rank (getParent u))"
    using snoc.prems absPaths_mem[OF assms(1) nt, of "q0 @ r @ [l]"] by auto
  have "q @ r \<in> set (absPaths g rank (getParent u))" using snoc.IH[OF u(3)] .
  then show ?case using u absPaths_mem[OF assms(1) nt, of "q @ r @ [l]"] by auto
qed

lemma absPaths_rank_bound:
  assumes "acyclicBy g rank" "recordsWellFormed c g"
  shows "p \<in> set (absPaths g rank m) \<Longrightarrow>
         (\<forall>i \<in> set p. rank (referencedModule c i) \<le> rank m) \<and>
         distinct (map (referencedModule c) p)"
proof (induction p arbitrary: m rule: rev_induct)
  case Nil
  show ?case by simp
next
  case (snoc l q)
  have nt: "m \<noteq> topLevelNode g" using snoc.prems absPaths_root[of g rank] by auto
  obtain u where u: "u \<in> set (uses g m)" "getInstance u = l"
    "q \<in> set (absPaths g rank (getParent u))"
    using snoc.prems absPaths_mem[OF assms(1) nt, of "q @ [l]"] by auto
  have rl: "referencedModule c l = m" using absPaths_last[OF assms snoc.prems] .
  have lt: "rank (getParent u) < rank m" using assms(1) nt u(1) by (auto simp: acyclicBy_def)
  have below: "\<forall>i \<in> set q. rank (referencedModule c i) \<le> rank (getParent u)"
    and dq: "distinct (map (referencedModule c) q)"
    using snoc.IH[OF u(3)] by auto
  have "m \<notin> referencedModule c ` set q" using below lt by auto
  then show ?case using below dq rl lt by auto
qed

lemma chains_reference_distinct_modules:
  assumes acyc: "acyclicBy g rank" and wf: "recordsWellFormed c g"
    and src: "absPaths g rank sourceModule = [sourcePath]"
    and snk: "absPaths g rank sinkModule = [sinkPath]"
  shows "distinct (map (referencedModule c)
           (drop (length (longest_common_prefix sourcePath sinkPath)) sourcePath @
            drop (length (longest_common_prefix sourcePath sinkPath)) sinkPath))"
proof -
  define l where "l = longest_common_prefix sourcePath sinkPath"
  define sources where "sources = drop (length l) sourcePath"
  define sinks where "sinks = drop (length l) sinkPath"
  have split: "xs = pre @ drop (length pre) xs" if "prefix pre xs" for pre xs :: "InstanceOp list"
    using that by (auto simp: prefix_def)
  have ps: "sourcePath = l @ sources"
    unfolding l_def sources_def by (rule split) (rule longest_common_prefix_prefix1)
  have pk: "sinkPath = l @ sinks"
    unfolding l_def sinks_def by (rule split) (rule longest_common_prefix_prefix2)
  have inS: "sourcePath \<in> set (absPaths g rank sourceModule)" using src by simp
  have inK: "sinkPath \<in> set (absPaths g rank sinkModule)" using snk by simp
  have d1: "distinct (map (referencedModule c) sources)"
    using absPaths_rank_bound[OF acyc wf inS] ps by (metis distinct_append map_append)
  have d2: "distinct (map (referencedModule c) sinks)"
    using absPaths_rank_bound[OF acyc wf inK] pk by (metis distinct_append map_append)
  have heads: "hd sources \<noteq> hd sinks" if "sources \<noteq> []" "sinks \<noteq> []"
  proof
    assume eq: "hd sources = hd sinks"
    have "prefix (l @ [hd sources]) sourcePath"
      using that(1) ps by (cases sources) (auto simp: prefix_def)
    moreover have "prefix (l @ [hd sources]) sinkPath"
      using that(2) pk eq by (cases sinks) (auto simp: prefix_def)
    ultimately have "prefix (l @ [hd sources]) l"
      unfolding l_def by (rule longest_common_prefix_max_prefix)
    then show False by (auto simp: prefix_def)
  qed
  have disj: "referencedModule c a \<noteq> referencedModule c b"
    if a: "a \<in> set sources" and b: "b \<in> set sinks" for a b
  proof
    assume eq: "referencedModule c a = referencedModule c b"
    obtain s1 s2 where s: "sources = s1 @ [a] @ s2" using a by (auto dest: split_list)
    obtain k1 k2 where k: "sinks = k1 @ [b] @ k2" using b by (auto dest: split_list)
    have pa: "(l @ s1) @ [a] \<in> set (absPaths g rank (referencedModule c a))"
      using absPaths_prefix_closed[OF acyc wf, of "l @ s1" a s2 sourceModule] inS ps s by simp
    have pb: "(l @ k1) @ [b] \<in> set (absPaths g rank (referencedModule c a))"
      using absPaths_prefix_closed[OF acyc wf, of "l @ k1" b k2 sinkModule] inK pk k eq by simp
    have "((l @ k1) @ [b]) @ s2 \<in> set (absPaths g rank sourceModule)"
      using absPaths_swap_prefix[OF acyc wf pa pb, of s2 sourceModule] inS ps s by simp
    then have "((l @ k1) @ [b]) @ s2 = sourcePath" using src by simp
    then have "k1 @ [b] = s1 @ [a]" using ps s by simp
    then have "hd (k1 @ [b] @ k2) = hd (s1 @ [a] @ s2)"
      by (metis append.assoc append_is_Nil_conv hd_append2 not_Cons_self2)
    then have "hd sinks = hd sources" using s k by simp
    moreover have "sources \<noteq> []" "sinks \<noteq> []" using s k by auto
    ultimately show False using heads by simp
  qed
  have "distinct (map (referencedModule c) (sources @ sinks))"
    using d1 d2 disj by auto
  then show ?thesis by (simp add: sources_def sinks_def l_def)
qed

lemma absPaths_fun: "absPaths g rank = (\<lambda>m. pathsAt (Suc (rank m)) g m)"
  by (rule ext) (simp add: absPaths_def)

lemma getAbsolutePaths_single:
  assumes "acyclicBy g rank" "instanceGraph C = g" "cacheConsistent (absPaths g rank) C"
    and "rank m < fuel" "absPaths g rank m = [path]"
  shows "\<exists>h C'. getAbsolutePaths fuel C m = Some ([h], C') \<and>
     pathElems (allocator C') h = path \<and> pathValid (allocator C') h \<and>
     instanceGraph C' = g \<and> cacheConsistent (absPaths g rank) C' \<and>
     (\<exists>new. allocator C' = allocator C @ new)"
proof -
  obtain ps C' where r: "getAbsolutePaths fuel C m = Some (ps, C')"
    and res: "pathsResult (absPaths g rank) C C' ps (absPaths g rank m)"
    using getAbsolutePaths_main[OF assms(1) absPaths_fun assms(2,3,4)] by blast
  have "map (pathElems (allocator C')) ps = [path]"
    using res assms(5) by (simp add: pathsResult_def)
  then obtain h where h: "ps = [h]" "pathElems (allocator C') h = path" by auto
  show ?thesis
    using r res h assms(2) by (auto simp: pathsResult_def)
qed

lemma setConnection_ports:
  "portsToAdd (modsAt (setConnection mm m index v) m') = portsToAdd (modsAt mm m')"
  by (simp add: setConnection_def modsAt_def Let_def)

text \<open>
  The step for one wiring problem on an acyclic graph whose records agree with the
  circuit, where the source module and the sink module have exactly one absolute path
  each, the sink path is not a prefix of the source path, the modules along the paths are
  \<open>FModuleOp\<close>s and the source has a base type if the problem is reference-typed; built
  with assertions or without. The chains are what remains of the two paths after their
  common prefix; the modules of a chain are the modules its instances reference, which
  leaves out the LCA and, for a non-empty chain, ends in the source (sink) module itself.
  The step returns, and the plan of every module of the to-source chain has gained
  exactly one port at its end, an output, the plan of every module of the to-sink chain
  exactly one, an input. The port carries the index of the problem, its name is what
  \<open>newName\<close> returns for the hint in the name space of that module, and its type is the
  reference type of the source type if the problem is reference-typed and the source
  type otherwise. No other module has gained a port.
\<close>

lemma wireProblem_plans_one_port_per_chain_module:
  assumes acyc: "acyclicBy g rank" and wf: "recordsWellFormed c g"
    and cache: "instanceGraph (pathCache st) = g" "cacheConsistent (absPaths g rank) (pathCache st)"
    and defs: "definingModule (source problem) = Some sourceModule"
      "definingModule (sink problem) = Some sinkModule"
    and one: "absPaths g rank sourceModule = [sourcePath]" "absPaths g rank sinkModule = [sinkPath]"
    and fuel: "rank sourceModule < fuel" "rank sinkModule < fuel"
    and np: "\<not> prefix sinkPath sourcePath"
    and fm: "isFModuleOp c (topLevelNode g)"
      "\<forall>i \<in> set (sourcePath @ sinkPath). isFModuleOp c (referencedModule c i)"
    and ty: "isRefType problem \<longrightarrow> (\<exists>b. valueType (source problem) = BaseType b)"
    and chains: "sources = drop (length (longest_common_prefix sourcePath sinkPath)) sourcePath"
      "sinks = drop (length (longest_common_prefix sourcePath sinkPath)) sinkPath"
  shows "\<exists>st' tpe. wireProblem assertions fuel newName c st index problem = Some (Inr st') \<and>
     (isRefType problem \<longrightarrow> (\<exists>b. valueType (source problem) = BaseType b \<and> tpe = RefType b)) \<and>
     (\<not> isRefType problem \<longrightarrow> tpe = valueType (source problem)) \<and>
     (\<forall>i \<in> set sources.
        portsToAdd (modsAt (moduleModifications st') (referencedModule c i)) =
        portsToAdd (modsAt (moduleModifications st) (referencedModule c i)) @
          [(\<lparr>portName = fst (newName (namespaces st (referencedModule c i)) (newNameHint problem)),
             portType = tpe, portDirection = Out\<rparr>, index)]) \<and>
     (\<forall>i \<in> set sinks.
        portsToAdd (modsAt (moduleModifications st') (referencedModule c i)) =
        portsToAdd (modsAt (moduleModifications st) (referencedModule c i)) @
          [(\<lparr>portName = fst (newName (namespaces st (referencedModule c i)) (newNameHint problem)),
             portType = tpe, portDirection = In\<rparr>, index)]) \<and>
     (\<forall>m. m \<notin> referencedModule c ` set (sources @ sinks) \<longrightarrow>
        portsToAdd (modsAt (moduleModifications st') m) =
        portsToAdd (modsAt (moduleModifications st) m)) \<and>
     (sources \<noteq> [] \<longrightarrow> referencedModule c (last sources) = sourceModule) \<and>
     (sinks \<noteq> [] \<longrightarrow> referencedModule c (last sinks) = sinkModule)"
proof -
  let ?l = "longest_common_prefix sourcePath sinkPath"
  obtain h1 C1 where p1: "getAbsolutePaths fuel (pathCache st) sourceModule = Some ([h1], C1)"
    and e1: "pathElems (allocator C1) h1 = sourcePath" and v1: "pathValid (allocator C1) h1"
    and g1: "instanceGraph C1 = g" and c1: "cacheConsistent (absPaths g rank) C1"
    using getAbsolutePaths_single[OF acyc cache fuel(1) one(1)] by blast
  obtain h2 C2 where p2: "getAbsolutePaths fuel C1 sinkModule = Some ([h2], C2)"
    and e2: "pathElems (allocator C2) h2 = sinkPath"
    and g2: "instanceGraph C2 = g"
    and grow: "\<exists>new. allocator C2 = allocator C1 @ new"
    using getAbsolutePaths_single[OF acyc g1 c1 fuel(2) one(2)] by blast
  have e1': "pathElems (allocator C2) h1 = sourcePath"
    using grow v1 e1 by (auto simp: pathElems_append)
  have sub: "set ?l \<subseteq> set sourcePath"
    using longest_common_prefix_prefix1[of sourcePath sinkPath] by (rule set_mono_prefix)
  have fl: "\<forall>s \<in> set ?l. isFModuleOp c (referencedModule c s)" using fm(2) sub by auto
  define lca where "lca = (if ?l = [] then topLevelNode g else referencedModule c (last ?l))"
  have lcaRes: "computeLCA c g sourcePath sinkPath = Inr (lca, sources, sinks)"
    using lcaLoop_common_prefix[OF np fl, of "topLevelNode g"] fm(1)
    by (simp add: computeLCA_def castFModuleOp_def lca_def chains)
  let ?mm2 = "setConnection
      (setConnection (moduleModifications st) sourceModule index (source problem))
      sinkModule index (sink problem)"
  let ?st2 = "st\<lparr>pathCache := C2, moduleModifications := ?mm2\<rparr>"
  have run: "wireProblem assertions fuel newName c st index problem =
             Some (planPorts newName c problem index sources sinks ?st2)"
    using defs p1 p2 e1' e2 g2 lcaRes by (simp add: wireProblem_def Let_def)
  have dist: "distinct (map (referencedModule c) (sources @ sinks))"
    using chains_reference_distinct_modules[OF acyc wf one] by (simp add: chains)
  have inPaths: "set (sources @ sinks) \<subseteq> set (sourcePath @ sinkPath)"
    using set_drop_subset[of "length ?l" sourcePath] set_drop_subset[of "length ?l" sinkPath]
    by (auto simp: chains)
  have fc: "\<forall>i \<in> set (sources @ sinks). isFModuleOp c (referencedModule c i)"
    using fm(2) inPaths by blast
  obtain st' tpe where
    r: "planPorts newName c problem index sources sinks ?st2 = Inr st'"
    and t1: "isRefType problem \<longrightarrow> (\<exists>b. valueType (source problem) = BaseType b \<and> tpe = RefType b)"
    and t2: "\<not> isRefType problem \<longrightarrow> tpe = valueType (source problem)"
    and so: "\<forall>i \<in> set sources.
        portsToAdd (modsAt (moduleModifications st') (referencedModule c i)) =
        portsToAdd (modsAt (moduleModifications ?st2) (referencedModule c i)) @
          [(\<lparr>portName = fst (newName (namespaces ?st2 (referencedModule c i)) (newNameHint problem)),
             portType = tpe, portDirection = Out\<rparr>, index)]"
    and si: "\<forall>i \<in> set sinks.
        portsToAdd (modsAt (moduleModifications st') (referencedModule c i)) =
        portsToAdd (modsAt (moduleModifications ?st2) (referencedModule c i)) @
          [(\<lparr>portName = fst (newName (namespaces ?st2 (referencedModule c i)) (newNameHint problem)),
             portType = tpe, portDirection = In\<rparr>, index)]"
    and ot: "\<forall>m. m \<notin> referencedModule c ` set (sources @ sinks) \<longrightarrow>
        moduleModifications st' m = moduleModifications ?st2 m"
    using planPorts_spec[OF dist fc ty, of newName index ?st2] by blast
  have base: "portsToAdd (modsAt (moduleModifications ?st2) m) =
              portsToAdd (modsAt (moduleModifications st) m)" for m
    by (simp add: setConnection_ports)
  have other: "portsToAdd (modsAt (moduleModifications st') m) =
               portsToAdd (modsAt (moduleModifications st) m)"
    if "m \<notin> referencedModule c ` set (sources @ sinks)" for m
  proof -
    have "modsAt (moduleModifications st') m = modsAt (moduleModifications ?st2) m"
      using ot that by (simp add: modsAt_def)
    then show ?thesis using base[of m] by simp
  qed
  have lastS: "referencedModule c (last sources) = sourceModule" if "sources \<noteq> []"
  proof -
    have "sourcePath \<noteq> []" "last sources = last sourcePath" using that by (auto simp: chains)
    then have "butlast sourcePath @ [last sources] \<in> set (absPaths g rank sourceModule)"
      using one(1) by simp
    then show ?thesis by (rule absPaths_last[OF acyc wf])
  qed
  have lastK: "referencedModule c (last sinks) = sinkModule" if "sinks \<noteq> []"
  proof -
    have "sinkPath \<noteq> []" "last sinks = last sinkPath" using that by (auto simp: chains)
    then have "butlast sinkPath @ [last sinks] \<in> set (absPaths g rank sinkModule)"
      using one(2) by simp
    then show ?thesis by (rule absPaths_last[OF acyc wf])
  qed
  have so': "\<forall>i \<in> set sources.
        portsToAdd (modsAt (moduleModifications st') (referencedModule c i)) =
        portsToAdd (modsAt (moduleModifications st) (referencedModule c i)) @
          [(\<lparr>portName = fst (newName (namespaces st (referencedModule c i)) (newNameHint problem)),
             portType = tpe, portDirection = Out\<rparr>, index)]"
    using so base by simp
  have si': "\<forall>i \<in> set sinks.
        portsToAdd (modsAt (moduleModifications st') (referencedModule c i)) =
        portsToAdd (modsAt (moduleModifications st) (referencedModule c i)) @
          [(\<lparr>portName = fst (newName (namespaces st (referencedModule c i)) (newNameHint problem)),
             portType = tpe, portDirection = In\<rparr>, index)]"
    using si base by simp
  have w: "wireProblem assertions fuel newName c st index problem = Some (Inr st')" using run r by simp
  show ?thesis
    using w t1 t2 so' si' other lastS lastK by blast
qed

lemma chainGraph_acyclic: "acyclicBy chainGraph (\<lambda>m. m)"
  by (auto simp: acyclicBy_def chainGraph_def)

lemma chainGraph_wellFormed: "recordsWellFormed chainCircuit chainGraph"
  by (auto simp: recordsWellFormed_def chainGraph_def chainCircuit_def split: if_splits)

lemma wireProblem_plans_one_port_per_chain_module_example:
  "acyclicBy chainGraph (\<lambda>m. m) \<and> recordsWellFormed chainCircuit chainGraph \<and>
   absPaths chainGraph (\<lambda>m. m) 2 = [[10, 20]] \<and>
   absPaths chainGraph (\<lambda>m. m) 5 = [[50]] \<and>
   \<not> prefix [50] [10, 20 :: nat] \<and>
   (\<exists>st'. wireProblem True 6 chainNewName chainCircuit chainState 7 (tapProblem 2 5) = Some (Inr st') \<and>
      portsToAdd (modsAt (moduleModifications st') 1) =
        [(\<lparr>portName = ''tap'', portType = RefType 8, portDirection = Out\<rparr>, 7)] \<and>
      portsToAdd (modsAt (moduleModifications st') 2) =
        [(\<lparr>portName = ''tap'', portType = RefType 8, portDirection = Out\<rparr>, 7)] \<and>
      portsToAdd (modsAt (moduleModifications st') 5) =
        [(\<lparr>portName = ''tap'', portType = RefType 8, portDirection = In\<rparr>, 7)] \<and>
      portsToAdd (modsAt (moduleModifications st') 0) = [])"
proof -
  let ?p = "tapProblem 2 5"
  have g: "instanceGraph (pathCache chainState) = chainGraph"
    by (simp add: chainState_def newInstancePathCache_def)
  have cc: "cacheConsistent (absPaths chainGraph (\<lambda>m. m)) (pathCache chainState)"
    by (simp add: chainState_def newInstancePathCache_def cacheConsistent_def)
  have d1: "definingModule (source ?p) = Some 2" and d2: "definingModule (sink ?p) = Some 5"
    by (simp_all add: tapProblem_def)
  have o1: "absPaths chainGraph (\<lambda>m. m) 2 = [[10, 20]]"
    by (simp add: absPaths_def chainGraph_def eval_nat_numeral)
  have o2: "absPaths chainGraph (\<lambda>m. m) 5 = [[50]]"
    by (simp add: absPaths_def chainGraph_def eval_nat_numeral)
  have f1: "(2::nat) < 6" and f2: "(5::nat) < 6" by simp_all
  have np: "\<not> prefix [50] [10, 20 :: nat]" by simp
  have t: "isFModuleOp chainCircuit (topLevelNode chainGraph)" by (simp add: chainCircuit_def)
  have f: "\<forall>i \<in> set ([10, 20] @ [50]). isFModuleOp chainCircuit (referencedModule chainCircuit i)"
    by (simp add: chainCircuit_def)
  have ty: "isRefType ?p \<longrightarrow> (\<exists>b. valueType (source ?p) = BaseType b)"
    by (simp add: tapProblem_def)
  have s1: "[10, 20] = drop (length (longest_common_prefix [10, 20] [50 :: nat])) [10, 20 :: nat]"
    by simp
  have s2: "[50] = drop (length (longest_common_prefix [10, 20] [50 :: nat])) [50 :: nat]"
    by simp
  obtain st' tpe where
    run: "wireProblem True 6 chainNewName chainCircuit chainState 7 ?p = Some (Inr st')"
    and tp: "isRefType ?p \<longrightarrow> (\<exists>b. valueType (source ?p) = BaseType b \<and> tpe = RefType b)"
    and so: "\<forall>i \<in> set [10, 20].
        portsToAdd (modsAt (moduleModifications st') (referencedModule chainCircuit i)) =
        portsToAdd (modsAt (moduleModifications chainState) (referencedModule chainCircuit i)) @
          [(\<lparr>portName = fst (chainNewName (namespaces chainState (referencedModule chainCircuit i))
               (newNameHint ?p)),
             portType = tpe, portDirection = Out\<rparr>, 7)]"
    and si: "\<forall>i \<in> set [50].
        portsToAdd (modsAt (moduleModifications st') (referencedModule chainCircuit i)) =
        portsToAdd (modsAt (moduleModifications chainState) (referencedModule chainCircuit i)) @
          [(\<lparr>portName = fst (chainNewName (namespaces chainState (referencedModule chainCircuit i))
               (newNameHint ?p)),
             portType = tpe, portDirection = In\<rparr>, 7)]"
    and ot: "\<forall>m. m \<notin> referencedModule chainCircuit ` set ([10, 20] @ [50]) \<longrightarrow>
        portsToAdd (modsAt (moduleModifications st') m) =
        portsToAdd (modsAt (moduleModifications chainState) m)"
    using wireProblem_plans_one_port_per_chain_module
      [OF chainGraph_acyclic chainGraph_wellFormed g cc d1 d2 o1 o2 f1 f2 np t f ty s1 s2,
       of True chainNewName 7]
    by blast
  have tpe: "tpe = RefType 8" using tp by (simp add: tapProblem_def)
  have p1: "portsToAdd (modsAt (moduleModifications st') 1) =
        [(\<lparr>portName = ''tap'', portType = RefType 8, portDirection = Out\<rparr>, 7)]"
    using so tpe by (simp add: chainCircuit_def chainState_def tapProblem_def modsAt_def noModifications_def)
  have p2: "portsToAdd (modsAt (moduleModifications st') 2) =
        [(\<lparr>portName = ''tap'', portType = RefType 8, portDirection = Out\<rparr>, 7)]"
    using so tpe by (simp add: chainCircuit_def chainState_def tapProblem_def modsAt_def noModifications_def)
  have p5: "portsToAdd (modsAt (moduleModifications st') 5) =
        [(\<lparr>portName = ''tap'', portType = RefType 8, portDirection = In\<rparr>, 7)]"
    using si tpe by (simp add: chainCircuit_def chainState_def tapProblem_def modsAt_def noModifications_def)
  have p0: "portsToAdd (modsAt (moduleModifications st') 0) = []"
    using ot[rule_format, of 0]
    by (simp add: chainCircuit_def chainState_def modsAt_def noModifications_def)
  show ?thesis
    using chainGraph_acyclic chainGraph_wellFormed o1 o2 np run p1 p2 p5 p0 by blast
qed

text \<open>
  Claim C9. For every wiring problem, every module of the to-source chain is to gain
  exactly one output port and every module of the to-sink chain exactly one input port.
  The lemma above shows that the step does so whenever the sink path is not a prefix of
  the source path. Where it is, the step stops in the loop that looks for the LCA, at
  the read of C3, and plans no port: for a source in module 2 and a sink in module 1 of
  the small design the paths are \<open>[10, 20]\<close> and \<open>[10]\<close>, the to-source chain is \<open>[20]\<close>
  and module 2 is to gain an output port; for a source in module 1 and a sink in the
  root the to-source chain is \<open>[10]\<close> and module 1 is to gain one.
\<close>

theorem wireProblem_plans_no_port_for_sink_above_source:
  "absPaths chainGraph (\<lambda>m. m) 2 = [[10, 20]] \<and>
   absPaths chainGraph (\<lambda>m. m) 1 = [[10]] \<and>
   absPaths chainGraph (\<lambda>m. m) 0 = [[]] \<and>
   drop (length (longest_common_prefix [10, 20] [10 :: nat])) [10, 20 :: nat] = [20] \<and>
   drop (length (longest_common_prefix [10] ([] :: nat list))) [10 :: nat] = [10] \<and>
   wireProblem True 6 chainNewName chainCircuit chainState 7 (tapProblem 2 1) =
     Some (Inl IndexOutOfBounds) \<and>
   wireProblem False 6 chainNewName chainCircuit chainState 7 (tapProblem 2 1) =
     Some (Inl IndexOutOfBounds) \<and>
   wireProblem True 6 chainNewName chainCircuit chainState 7 (tapProblem 1 0) =
     Some (Inl IndexOutOfBounds) \<and>
   wireProblem False 6 chainNewName chainCircuit chainState 7 (tapProblem 1 0) =
     Some (Inl IndexOutOfBounds)"
proof -
  have a2: "absPaths chainGraph (\<lambda>m. m) 2 = [[10, 20]]"
    by (simp add: absPaths_def chainGraph_def eval_nat_numeral)
  have a1: "absPaths chainGraph (\<lambda>m. m) 1 = [[10]]"
    by (simp add: absPaths_def chainGraph_def eval_nat_numeral)
  have a0: "absPaths chainGraph (\<lambda>m. m) 0 = [[]]"
    by (simp add: absPaths_def chainGraph_def)
  have c1: "drop (length (longest_common_prefix [10, 20] [10 :: nat])) [10, 20 :: nat] = [20]"
    by simp
  have c2: "drop (length (longest_common_prefix [10] ([] :: nat list))) [10 :: nat] = [10]"
    by simp
  have r1: "wireProblem True 6 chainNewName chainCircuit chainState 7 (tapProblem 2 1) =
     Some (Inl IndexOutOfBounds)"
    by (simp add: wireProblem_def tapProblem_def chainState_def Let_def eval_nat_numeral
        newInstancePathCache_def chainGraph_def cacheInsert_def appendInstance_def
        computeLCA_def castFModuleOp_def chainCircuit_def)
  have r2: "wireProblem False 6 chainNewName chainCircuit chainState 7 (tapProblem 2 1) =
     Some (Inl IndexOutOfBounds)"
    by (simp add: wireProblem_def tapProblem_def chainState_def Let_def eval_nat_numeral
        newInstancePathCache_def chainGraph_def cacheInsert_def appendInstance_def
        computeLCA_def castFModuleOp_def chainCircuit_def)
  have r3: "wireProblem True 6 chainNewName chainCircuit chainState 7 (tapProblem 1 0) =
     Some (Inl IndexOutOfBounds)"
    by (simp add: wireProblem_def tapProblem_def chainState_def Let_def eval_nat_numeral
        newInstancePathCache_def chainGraph_def cacheInsert_def appendInstance_def
        computeLCA_def castFModuleOp_def chainCircuit_def)
  have r4: "wireProblem False 6 chainNewName chainCircuit chainState 7 (tapProblem 1 0) =
     Some (Inl IndexOutOfBounds)"
    by (simp add: wireProblem_def tapProblem_def chainState_def Let_def eval_nat_numeral
        newInstancePathCache_def chainGraph_def cacheInsert_def appendInstance_def
        computeLCA_def castFModuleOp_def chainCircuit_def)
  show ?thesis using a2 a1 a0 c1 c2 r1 r2 r3 r4 by (intro conjI)
qed

section \<open>Annotation dispatch and the driver loop\<close>







lemma foldl_push_back: "foldl (\<lambda>wl anno. wl @ [anno]) wl xs = wl @ xs"
  by (induction xs arbitrary: wl) auto

lemma populateWorklist_rev: "populateWorklist wl annos = wl @ rev annos"
  by (simp add: populateWorklist_def foldl_push_back)

lemma processWorklist_in_order_along:
  "noneEnqueuedAlong opts ext annos state \<Longrightarrow>
   processWorklist opts ext nf na (rev annos) state =
     Some (case applyInOrder opts ext annos state of
             Inl e \<Rightarrow> Inl e
           | Inr (oks, state') \<Rightarrow> Inr (nf + length (filter Not oks), na, state'))"
proof (induction annos arbitrary: nf state)
  case Nil
  show ?case by (subst processWorklist.simps) simp
next
  case (Cons anno annos)
  show ?case
  proof (cases "applyAnnotation opts ext anno state")
    case (Inl e)
    then show ?thesis by (subst processWorklist.simps) simp
  next
    case (Inr r)
    obtain ok state' added where r: "r = (ok, state', added)" by (cases r) auto
    have added: "added = []" and rest: "noneEnqueuedAlong opts ext annos state'"
      using Cons.prems Inr r by simp_all
    have "processWorklist opts ext nf na (rev (anno # annos)) state =
          processWorklist opts ext (if ok then nf else nf + 1) na (rev annos) state'"
      using Inr r added by (subst processWorklist.simps) simp
    then show ?thesis
      using Cons.IH[OF rest, of "if ok then nf else nf + 1"] Inr r
      by (auto split: sum.splits)
  qed
qed




lemma applyWithoutTarget_adds_nothing:
  "applyWithoutTarget ext b target anno state = Inr (ok, state', added) \<Longrightarrow> added = []"
  by (auto simp: applyWithoutTarget_def applyWithoutTargetImpl_def
      split: if_splits prod.splits sum.splits)

lemma resolveAndApply_adds_nothing:
  assumes "addsNothing r" "resolveAndApply r anno state = Inr (ok, state', added)"
  shows "added = []"
proof (cases "resolver r anno state")
  case (Inl e)
  then show ?thesis using assms(2) by (simp add: resolveAndApply_def)
next
  case (Inr x)
  obtain t state1 where x: "x = (t, state1)" by (cases x) auto
  show ?thesis
  proof (cases t)
    case None
    then show ?thesis using assms(2) Inr x by (simp add: resolveAndApply_def)
  next
    case (Some target)
    show ?thesis
    proof (cases "applier r target anno state1")
      case (Inl e)
      then show ?thesis using assms(2) Inr x Some by (simp add: resolveAndApply_def)
    next
      case Inr2: (Inr y)
      obtain ok2 state2 added2 where y: "y = (ok2, state2, added2)" by (cases y) auto
      have "added2 = []" using assms(1) Inr2 y by (auto simp: addsNothing_def)
      then show ?thesis using assms(2) Inr x Some Inr2 y
        by (cases ok2) (simp_all add: resolveAndApply_def)
    qed
  qed
qed

lemma table_adds_nothing:
  assumes "\<forall>cls r. otherRecords ext cls = Some r \<longrightarrow> addsNothing r"
    and "annotationRecords ext cls = Some r"
  shows "addsNothing r"
proof -
  have std: "addsNothing \<lparr>resolver = res, applier = applyWithoutTarget ext b\<rparr>" for res b
    using applyWithoutTarget_adds_nothing by (auto simp: addsNothing_def)
  show ?thesis
    using assms std by (auto simp: annotationRecords_def split: if_splits)
qed

lemma noneEnqueued_table:
  assumes "\<forall>cls r. otherRecords ext cls = Some r \<longrightarrow> addsNothing r"
  shows "noneEnqueued opts ext"
  unfolding noneEnqueued_def
proof (intro allI impI)
  fix anno state ok state' added
  assume run: "applyAnnotation opts ext anno state = Inr (ok, state', added)"
  have handler: "addsNothing r" if "getAnnotationHandler ext c b = Some r" for c b r
    using that table_adds_nothing[OF assms]
    by (auto simp: getAnnotationHandler_def split: option.splits if_splits)
  have fin: "added = []"
    if "getAnnotationHandler ext c b = Some r" "resolveAndApply r anno s = Inr (ok, state', added)"
    for c b r s
    using handler[OF that(1)] that(2) by (rule resolveAndApply_adds_nothing)
  show "added = []"
  proof (cases "map_of anno ''class''")
    case None
    show ?thesis
    proof (cases "ignoreClasslessAnno opts")
      case True
      then show ?thesis
        using run None
        by (auto simp: applyAnnotation_def Let_def split: option.splits if_splits dest: fin)
    next
      case False
      then show ?thesis using run None by (simp add: applyAnnotation_def)
    qed
  next
    case (Some a)
    show ?thesis
    proof (cases a)
      case (StringAttr cls)
      then show ?thesis
        using run Some
        by (auto simp: applyAnnotation_def Let_def split: option.splits if_splits dest: fin)
    qed (use run Some in \<open>simp_all add: applyAnnotation_def\<close>)
  qed
qed

lemma noneEnqueued_example: "noneEnqueued opts exampleExternals"
  by (rule noneEnqueued_table) (simp add: exampleExternals_def)

lemma noneEnqueued_along:
  "noneEnqueued opts ext \<Longrightarrow> noneEnqueuedAlong opts ext annos state"
  by (induction annos arbitrary: state) (auto simp: noneEnqueued_def split: sum.splits)

text \<open>
  The condition on the run is weaker than the condition on the table: it holds whenever
  no record of the table can add to the worklist, and it holds for annotations of class
  \<open>circt.testNT\<close> also when another record of the table does add to the worklist.
\<close>

lemma expandingExternals_enqueues: "\<not> noneEnqueued defaultOptions expandingExternals"
proof
  assume a: "noneEnqueued defaultOptions expandingExternals"
  have e: "applyAnnotation defaultOptions expandingExternals
             [(''class'', StringAttr ''example.expand'')] emptyState =
           Inr (True, emptyState, [[(''class'', StringAttr ''circt.testNT''), (''n'', IntegerAttr 9)]])"
    by (simp add: applyAnnotation_def getAnnotationHandler_def annotationRecords_def
        expandingExternals_def resolveAndApply_def noResolve_def circuitTarget_def)
  have "[[(''class'', StringAttr ''circt.testNT''), (''n'', IntegerAttr 9)]] = ([] :: DictionaryAttr list)"
    using a e unfolding noneEnqueued_def by blast
  then show False by simp
qed

text \<open>
  Claim C8. The worklist is populated with the reversed input, so the annotation popped
  first is the first of the input. When no application along the run adds to the
  worklist, the loop returns, and what it returns is what applying the annotations one
  after the other in input order returns: the same final state, the number of failed
  applications, or the same crash.
\<close>

theorem worklist_processed_in_input_order:
  assumes "noneEnqueuedAlong opts ext annos state"
  shows "populateWorklist [] annos = rev annos \<and>
         (annos \<noteq> [] \<longrightarrow> last (populateWorklist [] annos) = hd annos) \<and>
         processWorklist opts ext 0 0 (populateWorklist [] annos) state =
           Some (case applyInOrder opts ext annos state of
                   Inl e \<Rightarrow> Inl e
                 | Inr (oks, state') \<Rightarrow> Inr (length (filter Not oks), 0, state'))"
proof -
  have p: "populateWorklist [] annos = rev annos" by (simp add: populateWorklist_rev)
  have l: "annos \<noteq> [] \<longrightarrow> last (populateWorklist [] annos) = hd annos"
    by (simp add: p last_rev)
  show ?thesis
    using p l processWorklist_in_order_along[OF assms, of 0 0]
    by (auto split: sum.splits)
qed

theorem worklist_processed_in_input_order_witness:
  "noneEnqueuedAlong defaultOptions expandingExternals
     [[(''class'', StringAttr ''circt.testNT''), (''n'', IntegerAttr 1)],
      [(''class'', StringAttr ''circt.testNT''), (''n'', IntegerAttr 2)]] emptyState \<and>
   populateWorklist []
     [[(''class'', StringAttr ''circt.testNT''), (''n'', IntegerAttr 1)],
      [(''class'', StringAttr ''circt.testNT''), (''n'', IntegerAttr 2)]] =
     [[(''class'', StringAttr ''circt.testNT''), (''n'', IntegerAttr 2)],
      [(''class'', StringAttr ''circt.testNT''), (''n'', IntegerAttr 1)]] \<and>
   processWorklist defaultOptions expandingExternals 0 0
     (populateWorklist []
       [[(''class'', StringAttr ''circt.testNT''), (''n'', IntegerAttr 1)],
        [(''class'', StringAttr ''circt.testNT''), (''n'', IntegerAttr 2)]]) emptyState =
     Some (Inr (0, 0,
       emptyState\<lparr>annotations := (\<lambda>op. None)(0 := Some
         [[(''class'', StringAttr ''circt.testNT''), (''n'', IntegerAttr 1)],
          [(''class'', StringAttr ''circt.testNT''), (''n'', IntegerAttr 2)]])\<rparr>))"
proof -
  let ?a1 = "[(''class'', StringAttr ''circt.testNT''), (''n'', IntegerAttr 1)]"
  let ?a2 = "[(''class'', StringAttr ''circt.testNT''), (''n'', IntegerAttr 2)]"
  have quiet: "noneEnqueuedAlong defaultOptions expandingExternals [?a1, ?a2] emptyState"
    by (simp add: applyAnnotation_def getAnnotationHandler_def annotationRecords_def
        emptyState_def resolveAndApply_def noResolve_def
        applyWithoutTarget_def applyWithoutTargetImpl_def circuitTarget_def isLocal_def
        addAnnotation_def getAnnotationsFrom_def defaultOptions_def)
  have seq: "applyInOrder defaultOptions expandingExternals [?a1, ?a2] emptyState =
     Inr ([True, True], emptyState\<lparr>annotations := (\<lambda>op. None)(0 := Some [?a1, ?a2])\<rparr>)"
    by (simp add: applyAnnotation_def getAnnotationHandler_def annotationRecords_def
        emptyState_def resolveAndApply_def noResolve_def
        applyWithoutTarget_def applyWithoutTargetImpl_def circuitTarget_def isLocal_def
        addAnnotation_def getAnnotationsFrom_def defaultOptions_def)
  have r: "processWorklist defaultOptions expandingExternals 0 0
             (populateWorklist [] [?a1, ?a2]) emptyState =
           Some (case applyInOrder defaultOptions expandingExternals [?a1, ?a2] emptyState of
                   Inl e \<Rightarrow> Inl e
                 | Inr (oks, state') \<Rightarrow> Inr (length (filter Not oks), 0, state'))"
    using worklist_processed_in_input_order[OF quiet] by blast
  have run: "processWorklist defaultOptions expandingExternals 0 0
             (populateWorklist [] [?a1, ?a2]) emptyState =
           Some (Inr (0, 0, emptyState\<lparr>annotations := (\<lambda>op. None)(0 := Some [?a1, ?a2])\<rparr>))"
    unfolding r seq by simp
  have pop: "populateWorklist [] [?a1, ?a2] = [?a2, ?a1]"
    by (simp add: populateWorklist_def)
  show ?thesis
    using quiet pop run by (intro conjI)
qed

section \<open>Runs of the driver loop\<close>





lemma workRun_outcomes:
  "workRun opts ext worklist state trace n state' \<Longrightarrow>
   \<forall>entry \<in> set trace. \<exists>st st' added.
      applyAnnotation opts ext (fst entry) st = Inr (snd entry, st', added)"
proof (induction rule: workRun.induct)
  case (finished state)
  show ?case by simp
next
  case (applied anno state ok state1 added worklist trace n state')
  then show ?case by auto
qed





end
